theory Spec2Isabelle
  imports Complex_Main
begin

section \<open>Continuous extension of a DDE solution (scipy/integrate/\_dde/common.py)\<close>

text \<open>
  Times are modelled as real numbers: the class only subtracts and compares them, and
  the rounding of a difference next to the threshold is not modelled. A state vector
  is a list of reals, a matrix is the list of its columns. The \<open>print\<close> calls of the
  source are diagnostic and left out. The numbers of \<open>select_initial_step\<close> are
  reals as well: overflow to infinity and NaN are not modelled.
\<close>

type_synonym vec = "real list"

definition EPS :: real where
  "EPS = 1 / 2 ^ 52"

datatype error = ValueError | IndexError | TypeError | UnboundLocalError

text \<open>
  The entries of \<open>interpolants\<close>. The first three are the representations the code
  inspects for the history segment (a list of scalar splines, a plain function, a
  constant array); \<open>DenseOutput\<close> is a callable object that is none of them.
\<close>

datatype interpolant =
    SplineList "(real \<Rightarrow> real) list"
  | Function "real \<Rightarrow> vec"
  | Constant vec
  | DenseOutput "real \<Rightarrow> vec"

record ContinuousExt =
  repeated_t :: bool
  idxs :: "nat list"
  t_discont :: "real list"
  y_discont :: "vec list"
  ys :: "vec list"
  n_segments :: nat
  ts :: "real list"
  interpolants :: "interpolant list"
  t_min :: real
  t_max :: real
  ascending :: bool
  ts_sorted :: "real list"

subsection \<open>The numpy primitives the class uses\<close>

text \<open>\<open>np.diff\<close> and \<open>np.ediff1d\<close> on a 1-D array: differences of neighbours.\<close>

fun diff :: "real list \<Rightarrow> real list" where
  "diff (a # b # xs) = (b - a) # diff (b # xs)"
| "diff xs = []"

text \<open>\<open>np.argwhere(np.diff(ts) < EPS) + 1\<close>: the second index of every flagged pair.\<close>

definition dup_idxs :: "real list \<Rightarrow> nat list" where
  "dup_idxs xs = filter (\<lambda>i. xs ! i - xs ! (i - 1) < EPS) [1..<length xs]"

text \<open>\<open>[x for j, x in enumerate(xs) if j not in ix]\<close>, also \<open>np.delete(xs, ix)\<close>.\<close>

definition drop_idxs :: "nat list \<Rightarrow> 'a list \<Rightarrow> 'a list" where
  "drop_idxs ix xs = map snd (filter (\<lambda>(j, x). j \<notin> set ix) (enumerate 0 xs))"

text \<open>
  \<open>np.searchsorted\<close> for one key: the binary search of numpy, which also fixes the
  result on an array that is not sorted.
\<close>

function bisect :: "(real \<Rightarrow> real \<Rightarrow> bool) \<Rightarrow> real list \<Rightarrow> real \<Rightarrow> nat \<Rightarrow> nat \<Rightarrow> nat" where
  "bisect lt a key lo hi =
     (if lo < hi then
        (let mid = lo + (hi - lo) div 2 in
         if lt (a ! mid) key then bisect lt a key (mid + 1) hi
         else bisect lt a key lo mid)
      else lo)"
  by pat_completeness auto
termination
  by (relation "measure (\<lambda>(lt, a, key, lo, hi). hi - lo)") auto

declare bisect.simps [simp del]

definition searchsorted_left :: "real list \<Rightarrow> real \<Rightarrow> nat" where
  "searchsorted_left a key = bisect (<) a key 0 (length a)"

definition searchsorted_right :: "real list \<Rightarrow> real \<Rightarrow> nat" where
  "searchsorted_right a key = bisect (\<le>) a key 0 (length a)"

subsection \<open>Construction\<close>

text \<open>
  \<open>ContinuousExt.__init__\<close>. When no pair is flagged the attributes \<open>idxs\<close>,
  \<open>t_discont\<close> and \<open>y_discont\<close> are never set; the record holds empty lists there,
  and every reader of them is guarded by \<open>repeated_t\<close>.
\<close>

definition construct :: "real list \<Rightarrow> interpolant list \<Rightarrow> vec list \<Rightarrow> error + ContinuousExt" where
  "construct ts0 interps ys0 =
     (let rep = list_ex (\<lambda>d. d < EPS) (diff ts0);
          ix = (if rep then dup_idxs ts0 else [])
      in if list_ex (\<lambda>i. length ys0 \<le> i) ix then Inl IndexError
         else
           (let td = map (\<lambda>i. ts0 ! i) ix;
                yd = map (\<lambda>i. ys0 ! i) ix;
                ts1 = (if rep then drop_idxs ix ts0 else ts0);
                ys1 = (if rep then drop_idxs ix ys0 else ys0);
                d = diff ts1;
                incr_decr = (list_all (\<lambda>x. 0 < x) d \<or> list_all (\<lambda>x. x < 0) d)
            in if \<not> ((length ts1 = 2 \<and> hd ts1 = last ts1) \<or> incr_decr) then Inl ValueError
               else if length ts1 \<noteq> length interps + 1 \<or> length ts1 \<noteq> length ys1
                 then Inl ValueError
               else if hd ts1 \<le> last ts1 then
                 Inr \<lparr>repeated_t = rep, idxs = ix, t_discont = td, y_discont = yd,
                      ys = ys1, n_segments = length interps, ts = ts1,
                      interpolants = interps, t_min = hd ts1, t_max = last ts1,
                      ascending = True, ts_sorted = ts1\<rparr>
               else
                 Inr \<lparr>repeated_t = rep, idxs = ix, t_discont = td, y_discont = yd,
                      ys = ys1, n_segments = length interps, ts = ts1,
                      interpolants = interps, t_min = last ts1, t_max = hd ts1,
                      ascending = False, ts_sorted = rev ts1\<rparr>))"

subsection \<open>Scalar evaluation\<close>

text \<open>Python indexing of a list by an integer: a negative index counts from the end.\<close>

definition py_index :: "'a list \<Rightarrow> int \<Rightarrow> error + 'a" where
  "py_index xs i =
     (if 0 \<le> i \<and> i < int (length xs) then Inr (xs ! nat i)
      else if i < 0 \<and> - int (length xs) \<le> i then Inr (xs ! nat (int (length xs) + i))
      else Inl IndexError)"

text \<open>The test \<open>np.any(np.abs(self.t_discont - t) < EPS)\<close>, guarded by \<open>repeated_t\<close>.\<close>

definition discont_hit :: "ContinuousExt \<Rightarrow> real \<Rightarrow> bool" where
  "discont_hit c t = (repeated_t c \<and> list_ex (\<lambda>x. \<bar>x - t\<bar> < EPS) (t_discont c))"

text \<open>Lines 226 to 233: search, clamp, and flip for a descending instance.\<close>

definition select_segment :: "ContinuousExt \<Rightarrow> real \<Rightarrow> int" where
  "select_segment c t =
     (let ind = (if ascending c then int (searchsorted_left (ts_sorted c) t)
                 else int (searchsorted_right (ts_sorted c) t));
          segment = min (max (ind - 1) 0) (int (n_segments c) - 1)
      in if \<not> ascending c then int (n_segments c) - 1 - segment else segment)"

text \<open>
  The history segment at one time. An object that is neither a list, a function nor
  an array leaves \<open>va\<close> unassigned, and the \<open>return va\<close> raises.
\<close>

definition eval_history :: "interpolant \<Rightarrow> real \<Rightarrow> error + vec" where
  "eval_history h t =
     (case h of
        SplineList fs \<Rightarrow> Inr (map (\<lambda>f. f t) fs)
      | Function f \<Rightarrow> Inr (f t)
      | Constant v \<Rightarrow> Inr v
      | DenseOutput f \<Rightarrow> Inl UnboundLocalError)"

text \<open>Calling an entry of \<open>interpolants\<close>: a list and an array are not callable.\<close>

definition call_interp :: "interpolant \<Rightarrow> real \<Rightarrow> error + vec" where
  "call_interp h t =
     (case h of
        DenseOutput f \<Rightarrow> Inr (f t)
      | Function f \<Rightarrow> Inr (f t)
      | SplineList fs \<Rightarrow> Inl TypeError
      | Constant v \<Rightarrow> Inl TypeError)"

text \<open>\<open>ContinuousExt._call_single\<close>, reached from \<open>__call__\<close> with a 0-d array.\<close>

definition call_single :: "ContinuousExt \<Rightarrow> real \<Rightarrow> error + vec" where
  "call_single c t =
     (if discont_hit c t then
        (let ind = (if ascending c then searchsorted_left (t_discont c) t
                    else searchsorted_right (t_discont c) t)
         in py_index (y_discont c) (int ind))
      else
        (let segment = select_segment c t
         in case py_index (interpolants c) segment of
              Inl e \<Rightarrow> Inl e
            | Inr h \<Rightarrow> if segment = 0 then eval_history h t else call_interp h t))"

subsection \<open>Range truncation\<close>

text \<open>
  \<open>ContinuousExt.reorganize\<close>: only \<open>ts\<close> and \<open>interpolants\<close> are assigned; the
  search runs on \<open>self.ts\<close>, not on the sorted view.
\<close>

definition reorganize :: "ContinuousExt \<Rightarrow> real \<Rightarrow> ContinuousExt" where
  "reorganize c t0_new =
     (let idx = searchsorted_left (ts c) t0_new + 1
      in c\<lparr>ts := take idx (ts c), interpolants := take idx (interpolants c)\<rparr>)"

subsection \<open>Batched evaluation\<close>

text \<open>\<open>np.argsort\<close>, taken as a stable sort of the positions by their times.\<close>

definition argsort :: "real list \<Rightarrow> nat list" where
  "argsort t = sort_key (\<lambda>i. t ! i) [0..<length t]"

text \<open>\<open>reverse[order] = np.arange(order.shape[0])\<close>: a scatter into a fresh array.\<close>

definition inverse_perm :: "nat list \<Rightarrow> nat list" where
  "inverse_perm order =
     fold (\<lambda>(j, p) r. r[p := j]) (enumerate 0 order) (replicate (length order) 0)"

text \<open>
  Lines 302 to 310 for one entry of the sorted times. numpy searches the keys of one
  call in turn and starts each search from the bounds of the one before; on a sorted
  array, as \<open>ts_sorted\<close> of a constructed instance is, that gives the result of the
  single search.
\<close>

definition batch_segment :: "ContinuousExt \<Rightarrow> real \<Rightarrow> int" where
  "batch_segment c t =
     (let ind = (if ascending c then int (searchsorted_left (ts_sorted c) t)
                 else int (searchsorted_right (ts_sorted c) t));
          s1 = ind - 1;
          s2 = (if s1 < 0 then 0 else s1);
          s3 = (if s2 > int (n_segments c) - 1 then int (n_segments c) - 1 else s2)
      in if \<not> ascending c then int (n_segments c) - 1 - s3 else s3)"

text \<open>\<open>itertools.groupby\<close>: each run of equal neighbours with its length.\<close>

function groupby :: "int list \<Rightarrow> (int \<times> nat) list" where
  "groupby [] = []"
| "groupby (x # xs) =
     (x, Suc (length (takeWhile (\<lambda>y. y = x) xs))) # groupby (dropWhile (\<lambda>y. y = x) xs)"
  by pat_completeness auto
termination
  by (relation "measure length") (auto simp: length_dropWhile_le less_Suc_eq_le)

text \<open>Assigning a vector to a column of \<open>n\<close> rows: numpy broadcasts a single entry.\<close>

definition broadcast :: "nat \<Rightarrow> vec \<Rightarrow> error + vec" where
  "broadcast n v =
     (if length v = n then Inr v
      else if length v = 1 then Inr (replicate n (hd v))
      else Inl ValueError)"

text \<open>The first error of a sequence of results, or all the values.\<close>

fun collect :: "(error + 'a) list \<Rightarrow> error + 'a list" where
  "collect [] = Inr []"
| "collect (r # rs) =
     (case r of
        Inl e \<Rightarrow> Inl e
      | Inr x \<Rightarrow> (case collect rs of Inl e \<Rightarrow> Inl e | Inr xs \<Rightarrow> Inr (x # xs)))"

text \<open>One pass of the loop over \<open>k\<close> in the history branch, at the time \<open>tk = t[k]\<close>.\<close>

definition history_column :: "interpolant \<Rightarrow> nat \<Rightarrow> real \<Rightarrow> error + vec" where
  "history_column interp n tk =
     (case interp of
        SplineList fs \<Rightarrow>
          if n \<le> length fs then Inr (map (\<lambda>m. (fs ! m) tk) [0..<n]) else Inl IndexError
      | Function f \<Rightarrow> broadcast n (f tk)
      | Constant v \<Rightarrow> broadcast n v
      | DenseOutput f \<Rightarrow> Inl UnboundLocalError)"

text \<open>A callable applied to an array of times gives one column per time.\<close>

definition call_interp_array :: "interpolant \<Rightarrow> real list \<Rightarrow> error + vec list" where
  "call_interp_array h tt =
     (case h of
        DenseOutput f \<Rightarrow> Inr (map f tt)
      | Function f \<Rightarrow> Inr (map f tt)
      | SplineList fs \<Rightarrow> Inl TypeError
      | Constant v \<Rightarrow> Inl TypeError)"

text \<open>
  The body of the loop over the groups. In the history branch the code reads
  \<open>t[k]\<close> for \<open>k\<close> in \<open>range(Nt)\<close>: the unsorted array, from its start.
\<close>

definition eval_group ::
  "ContinuousExt \<Rightarrow> real list \<Rightarrow> real list \<Rightarrow> int \<Rightarrow> nat \<Rightarrow> nat \<Rightarrow> error + vec list" where
  "eval_group c t t_sorted segment group_start group_end =
     (if segment = 0 then
        (let Nt = length (take (group_end - group_start) (drop group_start t_sorted))
         in case py_index (interpolants c) segment of
              Inl e \<Rightarrow> Inl e
            | Inr interp \<Rightarrow>
                (case ys c of
                   [] \<Rightarrow> Inl IndexError
                 | y0 # _ \<Rightarrow> collect (map (\<lambda>k. history_column interp (length y0) (t ! k)) [0..<Nt])))
      else
        (case py_index (interpolants c) segment of
           Inl e \<Rightarrow> Inl e
         | Inr h \<Rightarrow> call_interp_array h (take (group_end - group_start) (drop group_start t_sorted))))"

fun eval_groups ::
  "ContinuousExt \<Rightarrow> real list \<Rightarrow> real list \<Rightarrow> nat \<Rightarrow> (int \<times> nat) list \<Rightarrow> error + vec list list" where
  "eval_groups c t t_sorted group_start [] = Inr []"
| "eval_groups c t t_sorted group_start ((segment, len) # rest) =
     (let group_end = group_start + len
      in case eval_group c t t_sorted segment group_start group_end of
           Inl e \<Rightarrow> Inl e
         | Inr y \<Rightarrow>
             (case eval_groups c t t_sorted group_end rest of
                Inl e \<Rightarrow> Inl e
              | Inr rest_ys \<Rightarrow> Inr (y # rest_ys)))"

text \<open>\<open>np.hstack\<close>: no block, or blocks of different heights, is a ValueError.\<close>

definition hstack :: "vec list list \<Rightarrow> error + vec list" where
  "hstack mats =
     (let cols = concat mats
      in if mats = [] then Inl ValueError
         else if list_all (\<lambda>col. length col = length (hd cols)) cols then Inr cols
         else Inl ValueError)"

text \<open>
  The loop that puts the recorded jump values back: \<open>np.insert\<close> at a position
  beyond the end is an IndexError, a value of the wrong height a ValueError.
\<close>

fun reinsert :: "real list \<Rightarrow> vec list \<Rightarrow> (real \<times> vec) list \<Rightarrow> error + vec list" where
  "reinsert t_tmp cols [] = Inr cols"
| "reinsert t_tmp cols ((td, yd) # rest) =
     (let idx = searchsorted_left t_tmp td + 1
      in if length t_tmp < idx \<or> length cols < idx then Inl IndexError
         else
           (case broadcast (length (hd cols)) yd of
              Inl e \<Rightarrow> Inl e
            | Inr col \<Rightarrow>
                reinsert (take idx t_tmp @ td # drop idx t_tmp)
                         (take idx cols @ col # drop idx cols) rest))"

text \<open>\<open>ContinuousExt.__call__\<close> on a 1-D array of times.\<close>

definition call_batched :: "ContinuousExt \<Rightarrow> real list \<Rightarrow> error + vec list" where
  "call_batched c t0 =
     (if repeated_t c \<and> \<not> list_ex (\<lambda>d. d < EPS) (diff t0) then Inl ValueError
      else
        (let t = (if repeated_t c then drop_idxs (dup_idxs t0) t0 else t0);
             order = argsort t;
             reverse = inverse_perm order;
             t_sorted = map (\<lambda>i. t ! i) order;
             segments = map (batch_segment c) t_sorted
         in case eval_groups c t t_sorted 0 (groupby segments) of
              Inl e \<Rightarrow> Inl e
            | Inr mats \<Rightarrow>
                (case hstack mats of
                   Inl e \<Rightarrow> Inl e
                 | Inr cols \<Rightarrow>
                     (let out = map (\<lambda>j. cols ! j) reverse
                      in if repeated_t c
                         then reinsert t_sorted out (zip (t_discont c) (y_discont c))
                         else Inr out))))"

subsection \<open>The initial step\<close>


text \<open>
  \<open>norm\<close>, the RMS norm: \<open>np.linalg.norm(x) / x.size ** 0.5\<close>. On an empty array
  numpy gives NaN, here the quotient is 0; NaN is not modelled.
\<close>

definition norm_rms :: "vec \<Rightarrow> real" where
  "norm_rms x = sqrt (\<Sum>v\<leftarrow>x. v\<^sup>2) / sqrt (real (length x))"



subsection \<open>Instances used as concrete inputs\<close>

text \<open>
  Boundaries \<open>[0, 1, 2]\<close>, a history given as a function \<open>t \<mapsto> [t]\<close> and one dense
  output \<open>t \<mapsto> [10 t]\<close>.
\<close>

definition inst_fun_history :: ContinuousExt where
  "inst_fun_history =
     \<lparr>repeated_t = False, idxs = [], t_discont = [], y_discont = [],
      ys = [[0], [1], [2]], n_segments = 2, ts = [0, 1, 2],
      interpolants = [Function (\<lambda>t. [t]), DenseOutput (\<lambda>t. [10 * t])],
      t_min = 0, t_max = 2, ascending = True, ts_sorted = [0, 1, 2]\<rparr>"

text \<open>
  The input \<open>[9, 1, 5, 0, 3]\<close>: every step down is below \<open>EPS\<close>, so the entries 1 and
  0 are taken for jumps and removed, and the boundaries left, \<open>[9, 5, 3]\<close>, descend.
\<close>

definition inst_descending :: ContinuousExt where
  "inst_descending =
     \<lparr>repeated_t = True, idxs = [1, 3], t_discont = [1, 0], y_discont = [[7], [1]],
      ys = [[5], [9], [2]], n_segments = 2, ts = [9, 5, 3],
      interpolants = [Function (\<lambda>t. [t]), DenseOutput (\<lambda>t. [10 * t])],
      t_min = 3, t_max = 9, ascending = False, ts_sorted = [3, 5, 9]\<rparr>"

text \<open>Boundaries \<open>[0, 1, 2]\<close> with a jump at time 1, given as \<open>[0, 1, 1, 2]\<close>.\<close>

definition inst_jump :: ContinuousExt where
  "inst_jump =
     \<lparr>repeated_t = True, idxs = [2], t_discont = [1], y_discont = [[2]],
      ys = [[0], [1], [3]], n_segments = 2, ts = [0, 1, 2],
      interpolants = [Function (\<lambda>t. [t]), DenseOutput (\<lambda>t. [10 * t])],
      t_min = 0, t_max = 2, ascending = True, ts_sorted = [0, 1, 2]\<rparr>"

text \<open>One boundary and no interpolant: the constructor accepts it.\<close>

definition inst_no_segment :: ContinuousExt where
  "inst_no_segment =
     \<lparr>repeated_t = False, idxs = [], t_discont = [], y_discont = [],
      ys = [[1]], n_segments = 0, ts = [0], interpolants = [],
      t_min = 0, t_max = 0, ascending = True, ts_sorted = [0]\<rparr>"

text \<open>Three boundaries at time 1: two jumps at the same instant.\<close>

definition inst_triple :: ContinuousExt where
  "inst_triple =
     \<lparr>repeated_t = True, idxs = [2, 3], t_discont = [1, 1], y_discont = [[2], [3]],
      ys = [[0], [1], [4]], n_segments = 2, ts = [0, 1, 2],
      interpolants = [Function (\<lambda>t. [t]), DenseOutput (\<lambda>t. [10 * t])],
      t_min = 0, t_max = 2, ascending = True, ts_sorted = [0, 1, 2]\<rparr>"

text \<open>
  The input \<open>[5, 1, 3, 3]\<close>: the step down to 1 and the repeated 3 are flagged, and
  the boundaries left, \<open>[5, 3]\<close>, descend.
\<close>

definition inst_unsorted :: ContinuousExt where
  "inst_unsorted =
     \<lparr>repeated_t = True, idxs = [1, 3], t_discont = [1, 3], y_discont = [[1], [3]],
      ys = [[0], [2]], n_segments = 1, ts = [5, 3],
      interpolants = [Function (\<lambda>t. [t])],
      t_min = 3, t_max = 5, ascending = False, ts_sorted = [3, 5]\<rparr>"

text \<open>Boundaries \<open>[0, 1, 2]\<close> with a history given as a list of one spline.\<close>

definition inst_spline_history :: ContinuousExt where
  "inst_spline_history =
     \<lparr>repeated_t = False, idxs = [], t_discont = [], y_discont = [],
      ys = [[0], [1], [2]], n_segments = 2, ts = [0, 1, 2],
      interpolants = [SplineList [\<lambda>t. t], DenseOutput (\<lambda>t. [10 * t])],
      t_min = 0, t_max = 2, ascending = True, ts_sorted = [0, 1, 2]\<rparr>"

text \<open>
  The input \<open>[0, 2, 1]\<close> with one interpolant: the step down is flagged and the
  entry 1 removed.
\<close>

definition inst_step_down :: ContinuousExt where
  "inst_step_down =
     \<lparr>repeated_t = True, idxs = [2], t_discont = [1], y_discont = [[1]],
      ys = [[0], [2]], n_segments = 1, ts = [0, 2],
      interpolants = [Function (\<lambda>t. [t])],
      t_min = 0, t_max = 2, ascending = True, ts_sorted = [0, 2]\<rparr>"

section \<open>Evaluation lemmas\<close>

lemmas construct_eval = construct_def dup_idxs_def drop_idxs_def EPS_def upt_rec Let_def

lemma construct_fun_history:
  "construct [0, 1, 2] [Function (\<lambda>t. [t]), DenseOutput (\<lambda>t. [10 * t])] [[0], [1], [2]]
     = Inr inst_fun_history"
  by (simp add: construct_def inst_fun_history_def EPS_def Let_def)

lemma argsort_two: "argsort [3 / 2, 1 / 2] = [1, 0]"
  by (simp add: argsort_def upt_rec)

lemma inverse_perm_swap: "inverse_perm [Suc 0, 0] = [Suc 0, 0]"
  by (simp add: inverse_perm_def)

lemma search_012:
  "searchsorted_left [0, 1, 2] (1 / 2) = 1"
  "searchsorted_left [0, 1, 2] (3 / 2) = 2"
  by (simp_all add: searchsorted_left_def bisect.simps)

lemma batch_segment_fun_history:
  "batch_segment inst_fun_history (1 / 2) = 0"
  "batch_segment inst_fun_history (3 / 2) = 1"
  by (simp_all add: batch_segment_def inst_fun_history_def search_012)

lemma eval_group_history:
  "eval_group inst_fun_history [3 / 2, 1 / 2] [1 / 2, 3 / 2] 0 0 (Suc 0) = Inr [[3 / 2]]"
  by (simp add: eval_group_def inst_fun_history_def py_index_def history_column_def
      broadcast_def)

lemma eval_group_dense:
  "eval_group inst_fun_history [3 / 2, 1 / 2] [1 / 2, 3 / 2] 1 (Suc 0) (Suc (Suc 0)) = Inr [[15]]"
  by (simp add: eval_group_def inst_fun_history_def py_index_def call_interp_array_def)

lemma call_batched_fun_history:
  "call_batched inst_fun_history [3 / 2, 1 / 2] = Inr [[15], [3 / 2]]"
proof -
  have r: "repeated_t inst_fun_history = False"
    by (simp add: inst_fun_history_def)
  show ?thesis
    unfolding call_batched_def r
    by (simp add: argsort_two inverse_perm_swap batch_segment_fun_history
        eval_group_history eval_group_dense hstack_def Let_def)
qed

lemma call_single_fun_history:
  "call_single inst_fun_history (1 / 2) = Inr [1 / 2]"
  "call_single inst_fun_history (3 / 2) = Inr [15]"
  by (simp_all add: call_single_def discont_hit_def select_segment_def inst_fun_history_def
      search_012 py_index_def eval_history_def call_interp_def)

lemma construct_descending:
  "construct [9, 1, 5, 0, 3] [Function (\<lambda>t. [t]), DenseOutput (\<lambda>t. [10 * t])]
     [[5], [7], [9], [1], [2]] = Inr inst_descending"
  by (simp add: construct_eval inst_descending_def)

lemma construct_jump:
  "construct [0, 1, 1, 2] [Function (\<lambda>t. [t]), DenseOutput (\<lambda>t. [10 * t])]
     [[0], [1], [2], [3]] = Inr inst_jump"
  by (simp add: construct_eval inst_jump_def)

lemma jump_dedup: "drop_idxs (dup_idxs [2, 1]) [2, 1 :: real] = [2]"
  by (simp add: dup_idxs_def drop_idxs_def EPS_def upt_rec)

lemma jump_flagged: "list_ex (\<lambda>d. d < EPS) (diff [2, 1])"
  by (simp add: EPS_def)

lemma argsort_one: "argsort [2] = [0]"
  by (simp add: argsort_def)

lemma inverse_perm_one: "inverse_perm [0] = [0]"
  by (simp add: inverse_perm_def)

lemma search_012_2: "searchsorted_left [0, 1, 2] 2 = 2"
  by (simp add: searchsorted_left_def bisect.simps)

lemma batch_segment_jump: "batch_segment inst_jump 2 = 1"
  by (simp add: batch_segment_def inst_jump_def search_012_2)

lemma eval_group_jump: "eval_group inst_jump [2] [2] 1 0 (Suc 0) = Inr [[20]]"
  by (simp add: eval_group_def inst_jump_def py_index_def call_interp_array_def)

lemma search_2_1: "searchsorted_left [2] 1 = 0"
  by (simp add: searchsorted_left_def bisect.simps)

lemma reinsert_jump: "reinsert [2] [[20]] [(1, [2])] = Inr [[20], [2]]"
  by (simp add: search_2_1 broadcast_def)

lemma call_batched_jump_descending_query:
  "call_batched inst_jump [2, 1] = Inr [[20], [2]]"
proof -
  have r: "repeated_t inst_jump = True" "t_discont inst_jump = [1]" "y_discont inst_jump = [[2]]"
    by (simp_all add: inst_jump_def)
  show ?thesis
    unfolding call_batched_def r
    by (simp add: jump_flagged jump_dedup argsort_one inverse_perm_one batch_segment_jump
        eval_group_jump hstack_def search_2_1 broadcast_def EPS_def Let_def)
qed

lemma construct_no_segment: "construct [0] [] [[1]] = Inr inst_no_segment"
  by (simp add: construct_eval inst_no_segment_def)

lemma reorganize_fun_history_single:
  "call_single (reorganize inst_fun_history 0) (3 / 2) = Inl IndexError"
  by (simp add: reorganize_def inst_fun_history_def call_single_def discont_hit_def
      select_segment_def searchsorted_left_def bisect.simps py_index_def)

lemma construct_triple:
  "construct [0, 1, 1, 1, 2] [Function (\<lambda>t. [t]), DenseOutput (\<lambda>t. [10 * t])]
     [[0], [1], [2], [3], [4]] = Inr inst_triple"
  by (simp add: construct_eval inst_triple_def)

lemma construct_unsorted:
  "construct [5, 1, 3, 3] [Function (\<lambda>t. [t])] [[0], [1], [2], [3]] = Inr inst_unsorted"
  by (simp add: construct_eval inst_unsorted_def)

lemma call_single_triple: "call_single inst_triple 1 = Inr [2]"
  by (simp add: call_single_def discont_hit_def inst_triple_def EPS_def searchsorted_left_def
      bisect.simps py_index_def)

lemma call_single_unsorted: "call_single inst_unsorted 3 = Inl IndexError"
  by (simp add: call_single_def discont_hit_def inst_unsorted_def EPS_def searchsorted_right_def
      bisect.simps py_index_def)

lemma call_single_jump: "call_single inst_jump 1 = Inr [2]"
  by (simp add: call_single_def discont_hit_def inst_jump_def EPS_def searchsorted_left_def
      bisect.simps py_index_def)

lemma construct_spline_history:
  "construct [0, 1, 2] [SplineList [\<lambda>t. t], DenseOutput (\<lambda>t. [10 * t])] [[0], [1], [2]]
     = Inr inst_spline_history"
  by (simp add: construct_def inst_spline_history_def EPS_def Let_def)

lemma construct_step_down:
  "construct [0, 2, 1] [Function (\<lambda>t. [t])] [[0], [2], [1]] = Inr inst_step_down"
  by (simp add: construct_eval inst_step_down_def)

lemma construct_short_ys:
  "construct [0, 1, 1] [Constant [0]] [[0], [1]] = Inl IndexError"
  by (simp add: construct_eval)

section \<open>The binary search on sorted input\<close>

text \<open>
  The search keeps its result between the bounds for any input. When the test is
  downward closed along the array (as on a sorted array) the result splits the array
  into the entries that pass the test and those that do not, and is the only such
  position.
\<close>

lemma bisect_bounds:
  "lo \<le> hi \<Longrightarrow> lo \<le> bisect lt a key lo hi \<and> bisect lt a key lo hi \<le> hi"
proof (induction lt a key lo hi rule: bisect.induct)
  case (1 lt a key lo hi)
  show ?case
  proof (cases "lo < hi")
    case False
    with "1.prems" show ?thesis by (simp add: bisect.simps)
  next
    case True
    define mid where "mid = lo + (hi - lo) div 2"
    have m: "lo \<le> mid" "mid < hi" using True by (auto simp: mid_def)
    show ?thesis
    proof (cases "lt (a ! mid) key")
      case True
      have "mid + 1 \<le> bisect lt a key (mid + 1) hi \<and> bisect lt a key (mid + 1) hi \<le> hi"
        using "1.IH"(1)[OF \<open>lo < hi\<close> mid_def True] m by simp
      moreover have "bisect lt a key lo hi = bisect lt a key (mid + 1) hi"
        using \<open>lo < hi\<close> True by (subst bisect.simps) (simp add: mid_def Let_def)
      ultimately show ?thesis using m by simp
    next
      case False
      have "lo \<le> bisect lt a key lo mid \<and> bisect lt a key lo mid \<le> mid"
        using "1.IH"(2)[OF \<open>lo < hi\<close> mid_def False] m by simp
      moreover have "bisect lt a key lo hi = bisect lt a key lo mid"
        using \<open>lo < hi\<close> False by (subst bisect.simps) (simp add: mid_def Let_def)
      ultimately show ?thesis using m by simp
    qed
  qed
qed

lemma bisect_partition:
  assumes mono: "\<And>i j. i \<le> j \<Longrightarrow> j < length a \<Longrightarrow> lt (a ! j) key \<Longrightarrow> lt (a ! i) key"
  shows "lo \<le> hi \<Longrightarrow> hi \<le> length a \<Longrightarrow> (\<forall>i<lo. lt (a ! i) key)
    \<Longrightarrow> (\<forall>i. hi \<le> i \<and> i < length a \<longrightarrow> \<not> lt (a ! i) key)
    \<Longrightarrow> (\<forall>i < bisect lt a key lo hi. lt (a ! i) key)
      \<and> (\<forall>i. bisect lt a key lo hi \<le> i \<and> i < length a \<longrightarrow> \<not> lt (a ! i) key)"
  using mono
proof (induction lt a key lo hi rule: bisect.induct)
  case (1 lt a key lo hi)
  show ?case
  proof (cases "lo < hi")
    case False
    with "1.prems" show ?thesis by (simp add: bisect.simps)
  next
    case True
    define mid where "mid = lo + (hi - lo) div 2"
    have m: "lo \<le> mid" "mid < hi" using True by (auto simp: mid_def)
    show ?thesis
    proof (cases "lt (a ! mid) key")
      case True
      have below: "\<forall>i<mid + 1. lt (a ! i) key"
        using "1.prems"(5)[of _ mid] True m "1.prems"(2) by (auto simp: less_Suc_eq_le)
      have eq: "bisect lt a key lo hi = bisect lt a key (mid + 1) hi"
        using \<open>lo < hi\<close> True by (subst bisect.simps) (simp add: mid_def Let_def)
      show ?thesis
        unfolding eq
        using "1.IH"(1)[OF \<open>lo < hi\<close> mid_def True _ "1.prems"(2) below "1.prems"(4) "1.prems"(5)] m
        by simp
    next
      case False
      have above: "\<forall>i. mid \<le> i \<and> i < length a \<longrightarrow> \<not> lt (a ! i) key"
        using "1.prems"(5)[of mid] False by blast
      have eq: "bisect lt a key lo hi = bisect lt a key lo mid"
        using \<open>lo < hi\<close> False by (subst bisect.simps) (simp add: mid_def Let_def)
      show ?thesis
        unfolding eq
        using "1.IH"(2)[OF \<open>lo < hi\<close> mid_def False _ _ "1.prems"(3) above "1.prems"(5)] m "1.prems"(2)
        by simp
    qed
  qed
qed

lemma bisect_unique:
  assumes mono: "\<And>i j. i \<le> j \<Longrightarrow> j < length a \<Longrightarrow> lt (a ! j) key \<Longrightarrow> lt (a ! i) key"
    and k: "k \<le> length a" "\<forall>i<k. lt (a ! i) key" "\<forall>i. k \<le> i \<and> i < length a \<longrightarrow> \<not> lt (a ! i) key"
  shows "bisect lt a key 0 (length a) = k"
proof -
  let ?r = "bisect lt a key 0 (length a)"
  have b: "?r \<le> length a" using bisect_bounds[of 0 "length a" lt a key] by simp
  have p: "(\<forall>i < ?r. lt (a ! i) key) \<and> (\<forall>i. ?r \<le> i \<and> i < length a \<longrightarrow> \<not> lt (a ! i) key)"
    by (rule bisect_partition[where a=a and lt=lt and key=key and lo=0 and hi="length a"])
      (use mono in auto)
  show ?thesis
  proof (rule ccontr)
    assume "?r \<noteq> k"
    then consider "?r < k" | "k < ?r" by linarith
    then show False
    proof cases
      case 1
      then have "lt (a ! ?r) key" "?r < length a" using k by auto
      with p show False by blast
    next
      case 2
      then have "lt (a ! k) key" "k < length a" using p b by auto
      with k show False by blast
    qed
  qed
qed

subsection \<open>\<open>searchsorted\<close> on a sorted array\<close>

lemma searchsorted_left_le: "searchsorted_left a key \<le> length a"
  using bisect_bounds[of 0 "length a" "(<)" a key] by (simp add: searchsorted_left_def)

lemma searchsorted_right_le: "searchsorted_right a key \<le> length a"
  using bisect_bounds[of 0 "length a" "(\<le>)" a key] by (simp add: searchsorted_right_def)

lemma searchsorted_left_eq:
  assumes "sorted a" "k \<le> length a" "\<forall>i<k. a ! i < key" "\<forall>i. k \<le> i \<and> i < length a \<longrightarrow> key \<le> a ! i"
  shows "searchsorted_left a key = k"
  unfolding searchsorted_left_def
proof (rule bisect_unique)
  fix i j assume "i \<le> j" "j < length a" "a ! j < key"
  moreover have "a ! i \<le> a ! j" using assms(1) \<open>i \<le> j\<close> \<open>j < length a\<close> by (simp add: sorted_nth_mono)
  ultimately show "a ! i < key" by simp
qed (use assms in \<open>auto simp: not_less\<close>)

lemma searchsorted_right_eq:
  assumes "sorted a" "k \<le> length a" "\<forall>i<k. a ! i \<le> key" "\<forall>i. k \<le> i \<and> i < length a \<longrightarrow> key < a ! i"
  shows "searchsorted_right a key = k"
  unfolding searchsorted_right_def
proof (rule bisect_unique)
  fix i j assume "i \<le> j" "j < length a" "a ! j \<le> key"
  moreover have "a ! i \<le> a ! j" using assms(1) \<open>i \<le> j\<close> \<open>j < length a\<close> by (simp add: sorted_nth_mono)
  ultimately show "a ! i \<le> key" by simp
qed (use assms in \<open>auto simp: not_le\<close>)

lemma strict_sorted_nth_less:
  "sorted_wrt (<) (a :: real list) \<Longrightarrow> i < j \<Longrightarrow> j < length a \<Longrightarrow> a ! i < a ! j"
  by (simp add: sorted_wrt_iff_nth_less)

lemma strict_sorted_imp_sorted: "sorted_wrt (<) (a :: real list) \<Longrightarrow> sorted a"
  by (simp add: strict_sorted_iff)

lemma searchsorted_left_at_boundary:
  assumes "sorted_wrt (<) a" "k < length a"
  shows "searchsorted_left a (a ! k) = k"
proof (rule searchsorted_left_eq)
  show "sorted a" using assms(1) by (rule strict_sorted_imp_sorted)
  show "k \<le> length a" using assms(2) by simp
  show "\<forall>i<k. a ! i < a ! k" using assms by (auto intro: strict_sorted_nth_less)
  show "\<forall>i. k \<le> i \<and> i < length a \<longrightarrow> a ! k \<le> a ! i"
    using strict_sorted_imp_sorted[OF assms(1)] by (auto intro: sorted_nth_mono)
qed

lemma searchsorted_right_at_boundary:
  assumes "sorted_wrt (<) a" "k < length a"
  shows "searchsorted_right a (a ! k) = Suc k"
proof (rule searchsorted_right_eq)
  show "sorted a" using assms(1) by (rule strict_sorted_imp_sorted)
  show "Suc k \<le> length a" using assms(2) by simp
  show "\<forall>i<Suc k. a ! i \<le> a ! k"
    using strict_sorted_imp_sorted[OF assms(1)] assms(2) by (auto intro: sorted_nth_mono)
  show "\<forall>i. Suc k \<le> i \<and> i < length a \<longrightarrow> a ! k < a ! i"
    using assms by (auto intro: strict_sorted_nth_less)
qed

lemma searchsorted_left_upper:
  assumes "sorted a" "k < length a" "key \<le> a ! k"
  shows "searchsorted_left a key \<le> k"
proof (rule ccontr)
  assume "\<not> searchsorted_left a key \<le> k"
  then have lt: "k < bisect (<) a key 0 (length a)" by (simp add: searchsorted_left_def)
  have "(\<forall>i < bisect (<) a key 0 (length a). a ! i < key)
      \<and> (\<forall>i. bisect (<) a key 0 (length a) \<le> i \<and> i < length a \<longrightarrow> \<not> a ! i < key)"
  proof (rule bisect_partition[where a=a and lt="(<)" and key=key and lo=0 and hi="length a"])
    fix i j assume "i \<le> j" "j < length a" "a ! j < key"
    moreover have "a ! i \<le> a ! j"
      using assms(1) \<open>i \<le> j\<close> \<open>j < length a\<close> by (simp add: sorted_nth_mono)
    ultimately show "a ! i < key" by simp
  qed auto
  with lt have "a ! k < key" by blast
  with assms(3) show False by simp
qed

section \<open>Differences of neighbours and order\<close>

lemma diff_pos_iff: "list_all (\<lambda>x. 0 < x) (diff xs) \<longleftrightarrow> sorted_wrt (<) xs"
  by (induction xs rule: diff.induct) (auto intro: less_trans)

lemma diff_neg_iff: "list_all (\<lambda>x. x < 0) (diff xs) \<longleftrightarrow> sorted_wrt (>) xs"
  by (induction xs rule: diff.induct) (auto intro: less_trans)

lemma length_diff: "length (diff xs) = length xs - 1"
  by (induction xs rule: diff.induct) auto

lemma nth_diff: "i < length xs - 1 \<Longrightarrow> diff xs ! i = xs ! Suc i - xs ! i"
proof (induction xs arbitrary: i rule: diff.induct)
  case (1 a b xs)
  then show ?case by (cases i) auto
qed auto

lemma diff_ex_iff:
  "list_ex P (diff xs) \<longleftrightarrow> (\<exists>i. 0 < i \<and> i < length xs \<and> P (xs ! i - xs ! (i - 1)))"
proof -
  have "list_ex P (diff xs) \<longleftrightarrow> (\<exists>j < length xs - 1. P (diff xs ! j))"
    by (simp add: list_ex_length length_diff)
  also have "\<dots> \<longleftrightarrow> (\<exists>j < length xs - 1. P (xs ! Suc j - xs ! j))"
    by (auto simp: nth_diff)
  also have "\<dots> \<longleftrightarrow> (\<exists>i. 0 < i \<and> i < length xs \<and> P (xs ! i - xs ! (i - 1)))"
  proof
    assume "\<exists>j < length xs - 1. P (xs ! Suc j - xs ! j)"
    then obtain j where "j < length xs - 1" "P (xs ! Suc j - xs ! j)" by blast
    then show "\<exists>i. 0 < i \<and> i < length xs \<and> P (xs ! i - xs ! (i - 1))"
      by (intro exI[of _ "Suc j"]) auto
  next
    assume "\<exists>i. 0 < i \<and> i < length xs \<and> P (xs ! i - xs ! (i - 1))"
    then obtain i where "0 < i" "i < length xs" "P (xs ! i - xs ! (i - 1))" by blast
    then show "\<exists>j < length xs - 1. P (xs ! Suc j - xs ! j)"
      by (intro exI[of _ "i - 1"]) auto
  qed
  finally show ?thesis .
qed

lemma set_dup_idxs: "set (dup_idxs xs) = {i. 0 < i \<and> i < length xs \<and> xs ! i - xs ! (i - 1) < EPS}"
  by (auto simp: dup_idxs_def)

section \<open>What a constructed instance holds\<close>

lemma construct_fields:
  assumes "construct ts0 interps ys0 = Inr c"
  shows "interpolants c = interps"
    and "n_segments c = length interps"
    and "length (ts c) = length interps + 1"
    and "length (ys c) = length (ts c)"
    and "repeated_t c = list_ex (\<lambda>d. d < EPS) (diff ts0)"
    and "idxs c = (if repeated_t c then dup_idxs ts0 else [])"
    and "ts c = (if repeated_t c then drop_idxs (dup_idxs ts0) ts0 else ts0)"
    and "ys c = (if repeated_t c then drop_idxs (dup_idxs ts0) ys0 else ys0)"
    and "t_discont c = map (\<lambda>i. ts0 ! i) (idxs c)"
    and "y_discont c = map (\<lambda>i. ys0 ! i) (idxs c)"
    and "ascending c \<longleftrightarrow> hd (ts c) \<le> last (ts c)"
    and "ts_sorted c = (if ascending c then ts c else rev (ts c))"
    and "t_min c = (if ascending c then hd (ts c) else last (ts c))"
    and "t_max c = (if ascending c then last (ts c) else hd (ts c))"
    and "\<forall>i \<in> set (idxs c). i < length ys0"
    and "sorted_wrt (<) (ts c) \<or> sorted_wrt (>) (ts c) \<or> (length (ts c) = 2 \<and> hd (ts c) = last (ts c))"
  using assms
  by (auto simp: construct_def Let_def list_ex_iff diff_pos_iff diff_neg_iff not_le split: if_splits)

section \<open>Segment selection at a boundary\<close>

lemma hd_last_nth: "xs \<noteq> [] \<Longrightarrow> hd xs = xs ! 0 \<and> last xs = xs ! (length xs - 1)"
  by (simp add: hd_conv_nth last_conv_nth)

lemma select_segment_ascending:
  assumes "ascending c" "ts_sorted c = a" "sorted_wrt (<) a" "length a = n_segments c + 1"
    and "0 < i" "i < length a"
  shows "select_segment c (a ! i) = int i - 1"
proof -
  have "searchsorted_left a (a ! i) = i"
    using assms(3,6) by (rule searchsorted_left_at_boundary)
  then show ?thesis
    using assms by (simp add: select_segment_def Let_def)
qed

lemma select_segment_descending:
  assumes "\<not> ascending c" "ts_sorted c = rev a" "sorted_wrt (>) a" "length a = n_segments c + 1"
    and "0 < i" "i < length a"
  shows "select_segment c (a ! i) = int i - 1"
proof -
  let ?n = "n_segments c"
  have s: "sorted_wrt (<) (rev a)" using assms(3) by (simp add: sorted_wrt_rev)
  have nth: "a ! i = rev a ! (?n - i)"
    using assms(4,6) by (simp add: rev_nth)
  have "searchsorted_right (rev a) (rev a ! (?n - i)) = Suc (?n - i)"
    using s assms(4,6) by (intro searchsorted_right_at_boundary) auto
  then have "searchsorted_right (rev a) (a ! i) = Suc (?n - i)" by (simp add: nth)
  then show ?thesis
    using assms by (simp add: select_segment_def Let_def)
qed

lemma select_segment_one_segment:
  assumes "ascending c" "n_segments c = 1"
  shows "select_segment c t = 0"
  using assms by (simp add: select_segment_def Let_def)

section \<open>The guard of the batched call\<close>

text \<open>
  With a flagged pair among the boundaries, a query whose steps are all at least
  \<open>EPS\<close>, taken with their sign, is rejected.
\<close>

lemma call_batched_guard:
  assumes "construct ts0 interps ys0 = Inr c"
    and "\<exists>i. 0 < i \<and> i < length ts0 \<and> ts0 ! i - ts0 ! (i - 1) < EPS"
    and "\<forall>j. 0 < j \<and> j < length t \<longrightarrow> EPS \<le> t ! j - t ! (j - 1)"
  shows "call_batched c t = Inl ValueError"
proof -
  have "repeated_t c"
    using construct_fields(5)[OF assms(1)] assms(2) by (simp add: diff_ex_iff)
  moreover have "\<not> list_ex (\<lambda>d. d < EPS) (diff t)"
    using assms(3) by (auto simp: diff_ex_iff not_less)
  ultimately show ?thesis by (simp add: call_batched_def)
qed

section \<open>The constructor in terms of the flagged indices\<close>

text \<open>
  A pair is flagged exactly when the list of flagged indices is not empty, so the
  constructor can be read without its case distinction on \<open>repeated_t\<close>.
\<close>

lemma dup_idxs_empty_iff: "dup_idxs ts0 = [] \<longleftrightarrow> \<not> list_ex (\<lambda>d. d < EPS) (diff ts0)"
proof -
  have "dup_idxs ts0 = [] \<longleftrightarrow> set (dup_idxs ts0) = {}" by simp
  also have "\<dots> \<longleftrightarrow> \<not> (\<exists>i. 0 < i \<and> i < length ts0 \<and> ts0 ! i - ts0 ! (i - 1) < EPS)"
    unfolding set_dup_idxs by blast
  finally show ?thesis by (simp add: diff_ex_iff)
qed

lemma drop_idxs_Nil: "drop_idxs [] xs = xs"
  by (simp add: drop_idxs_def map_snd_enumerate)

lemma flagged_idxs: "(if list_ex (\<lambda>d. d < EPS) (diff ts0) then dup_idxs ts0 else []) = dup_idxs ts0"
  using dup_idxs_empty_iff[of ts0] by auto

lemma filtered_eq:
  "(if list_ex (\<lambda>d. d < EPS) (diff ts0) then drop_idxs (dup_idxs ts0) xs else xs)
     = drop_idxs (dup_idxs ts0) xs"
  using dup_idxs_empty_iff[of ts0] by (auto simp: drop_idxs_Nil)

lemma construct_alt:
  "construct ts0 interps ys0 =
     (let ix = dup_idxs ts0; ts1 = drop_idxs ix ts0; ys1 = drop_idxs ix ys0
      in if list_ex (\<lambda>i. length ys0 \<le> i) ix then Inl IndexError
         else if \<not> ((length ts1 = 2 \<and> hd ts1 = last ts1)
                    \<or> sorted_wrt (<) ts1 \<or> sorted_wrt (>) ts1) then Inl ValueError
         else if length ts1 \<noteq> length interps + 1 \<or> length ts1 \<noteq> length ys1
           then Inl ValueError
         else Inr \<lparr>repeated_t = (ix \<noteq> []), idxs = ix,
                   t_discont = map (\<lambda>i. ts0 ! i) ix, y_discont = map (\<lambda>i. ys0 ! i) ix,
                   ys = ys1, n_segments = length interps, ts = ts1, interpolants = interps,
                   t_min = (if hd ts1 \<le> last ts1 then hd ts1 else last ts1),
                   t_max = (if hd ts1 \<le> last ts1 then last ts1 else hd ts1),
                   ascending = (hd ts1 \<le> last ts1),
                   ts_sorted = (if hd ts1 \<le> last ts1 then ts1 else rev ts1)\<rparr>)"
  unfolding construct_def Let_def flagged_idxs filtered_eq diff_pos_iff diff_neg_iff
  by (simp add: dup_idxs_empty_iff)

section \<open>Boundaries that increase by at least \<open>EPS\<close>\<close>

lemma steps_imp_no_flag:
  assumes "\<forall>i. 0 < i \<and> i < length ts0 \<longrightarrow> EPS \<le> ts0 ! i - ts0 ! (i - 1)"
  shows "dup_idxs ts0 = []"
proof -
  have "set (dup_idxs ts0) = {}"
    unfolding set_dup_idxs using assms by (auto simp: not_less)
  then show ?thesis by simp
qed

lemma EPS_pos: "0 < EPS"
  by (simp add: EPS_def)

lemma steps_imp_increasing:
  assumes "\<forall>i. 0 < i \<and> i < length ts0 \<longrightarrow> EPS \<le> ts0 ! i - ts0 ! (i - 1)"
  shows "sorted_wrt (<) ts0"
proof -
  have "list_all (\<lambda>x. 0 < x) (diff ts0)"
    unfolding list_all_length
  proof (intro allI impI)
    fix j assume j: "j < length (diff ts0)"
    then have "j < length ts0 - 1" by (simp add: length_diff)
    then have "diff ts0 ! j = ts0 ! Suc j - ts0 ! j" "Suc j < length ts0"
      by (auto simp: nth_diff)
    moreover have "EPS \<le> ts0 ! Suc j - ts0 ! (Suc j - 1)"
      using assms \<open>Suc j < length ts0\<close> by blast
    ultimately show "0 < diff ts0 ! j" using EPS_pos by simp
  qed
  then show ?thesis by (simp add: diff_pos_iff)
qed

lemma sorted_Min_hd: "sorted_wrt (<) (xs :: real list) \<Longrightarrow> xs \<noteq> [] \<Longrightarrow> Min (set xs) = hd xs"
  by (cases xs) (auto intro!: Min_eqI simp: less_imp_le)

lemma sorted_Max_last: "sorted_wrt (<) (xs :: real list) \<Longrightarrow> xs \<noteq> [] \<Longrightarrow> Max (set xs) = last xs"
proof (rule Max_eqI)
  fix y assume s: "sorted_wrt (<) xs" and ne: "xs \<noteq> []" and y: "y \<in> set xs"
  then obtain i where i: "i < length xs" "y = xs ! i" by (auto simp: in_set_conv_nth)
  have "sorted xs" using s by (rule strict_sorted_imp_sorted)
  then have "xs ! i \<le> xs ! (length xs - 1)" using i by (intro sorted_nth_mono) auto
  then show "y \<le> last xs" using i ne by (simp add: last_conv_nth)
qed auto

text \<open>
  A strictly decreasing boundary sequence does not get through the constructor: each
  step down is below \<open>EPS\<close>, so every boundary but the first is removed as a jump.
\<close>

lemma construct_descending_rejected:
  "sorted_wrt (>) [2, 1, 0 :: real]
   \<and> construct [2, 1, 0] [h0, h1] [y0, y1, y2] = Inl ValueError"
  by (simp add: construct_eval)

section \<open>The clamped segment index is a valid index\<close>

lemma select_segment_range:
  assumes "0 < n_segments c"
  shows "0 \<le> select_segment c t \<and> select_segment c t < int (n_segments c)"
  using assms by (auto simp: select_segment_def Let_def)

lemma batch_segment_eq: "batch_segment c t = select_segment c t"
  by (auto simp: batch_segment_def select_segment_def Let_def)

lemma py_index_in_range:
  "0 \<le> i \<Longrightarrow> i < int (length xs) \<Longrightarrow> py_index xs i = Inr (xs ! nat i)"
  by (simp add: py_index_def)

lemma eval_history_no_IndexError: "eval_history h t \<noteq> Inl IndexError"
  by (cases h) (simp_all add: eval_history_def)

lemma call_interp_no_IndexError: "call_interp h t \<noteq> Inl IndexError"
  by (cases h) (simp_all add: call_interp_def)

lemma call_interp_array_no_IndexError: "call_interp_array h tt \<noteq> Inl IndexError"
  by (cases h) (simp_all add: call_interp_array_def)

lemma broadcast_no_IndexError: "broadcast n v \<noteq> Inl IndexError"
  by (simp add: broadcast_def)

lemma history_column_no_IndexError:
  assumes "\<forall>fs. h = SplineList fs \<longrightarrow> n \<le> length fs"
  shows "history_column h n tk \<noteq> Inl IndexError"
  using assms by (cases h) (simp_all add: history_column_def broadcast_no_IndexError)

lemma collect_no_error:
  "\<forall>r \<in> set rs. r \<noteq> Inl e \<Longrightarrow> collect rs \<noteq> Inl e"
  by (induction rs) (auto split: sum.splits)

lemma hstack_no_IndexError: "hstack mats \<noteq> Inl IndexError"
  by (simp add: hstack_def Let_def)

lemma groupby_segments: "fst ` set (groupby xs) \<subseteq> set xs"
proof (induction xs rule: groupby.induct)
  case 1
  then show ?case by simp
next
  case (2 x xs)
  have "set (dropWhile (\<lambda>y. y = x) xs) \<subseteq> set xs" by (auto dest: set_dropWhileD)
  with 2 show ?case by auto
qed

lemma eval_group_no_IndexError:
  assumes "0 \<le> s" "s < int (length (interpolants c))" "ys c \<noteq> []"
    and "\<forall>fs. interpolants c ! 0 = SplineList fs \<longrightarrow> length (hd (ys c)) \<le> length fs"
  shows "eval_group c t tsd s gs ge \<noteq> Inl IndexError"
proof (cases "s = 0")
  case True
  obtain y0 rest where y: "ys c = y0 # rest" using assms(3) by (cases "ys c") auto
  have idx: "py_index (interpolants c) 0 = Inr (interpolants c ! 0)"
    using assms(1,2) True by (simp add: py_index_def)
  have "collect (map (\<lambda>k. history_column (interpolants c ! 0) (length y0) (t ! k)) ks) \<noteq> Inl IndexError" for ks
    using assms(4) y by (intro collect_no_error) (auto simp: history_column_no_IndexError)
  then show ?thesis using True by (simp add: eval_group_def idx y)
next
  case False
  have idx: "py_index (interpolants c) s = Inr (interpolants c ! nat s)"
    using assms(1,2) by (rule py_index_in_range)
  show ?thesis using False by (simp add: eval_group_def idx call_interp_array_no_IndexError)
qed

lemma eval_groups_no_IndexError:
  assumes "\<forall>s \<in> fst ` set groups. 0 \<le> s \<and> s < int (length (interpolants c))" "ys c \<noteq> []"
    and "\<forall>fs. interpolants c ! 0 = SplineList fs \<longrightarrow> length (hd (ys c)) \<le> length fs"
  shows "eval_groups c t tsd gs groups \<noteq> Inl IndexError"
  using assms(1)
proof (induction groups arbitrary: gs)
  case Nil
  then show ?case by simp
next
  case (Cons g groups)
  obtain s l where g: "g = (s, l)" by (cases g)
  have "eval_group c t tsd s gs (gs + l) \<noteq> Inl IndexError"
    using Cons.prems g assms(2,3) by (intro eval_group_no_IndexError) auto
  moreover have "eval_groups c t tsd (gs + l) groups \<noteq> Inl IndexError"
    using Cons by auto
  ultimately show ?case by (auto simp: g Let_def split: sum.splits)
qed

lemma call_batched_no_IndexError:
  assumes "\<not> repeated_t c" "0 < n_segments c" "n_segments c = length (interpolants c)" "ys c \<noteq> []"
    and "\<forall>fs. interpolants c ! 0 = SplineList fs \<longrightarrow> length (hd (ys c)) \<le> length fs"
  shows "call_batched c tt \<noteq> Inl IndexError"
proof -
  let ?segs = "map (batch_segment c) (map (\<lambda>i. tt ! i) (argsort tt))"
  have "\<forall>s \<in> fst ` set (groupby ?segs). 0 \<le> s \<and> s < int (length (interpolants c))"
  proof
    fix s assume "s \<in> fst ` set (groupby ?segs)"
    then have "s \<in> set ?segs" using groupby_segments by blast
    then obtain t where "s = select_segment c t" by (auto simp: batch_segment_eq)
    then show "0 \<le> s \<and> s < int (length (interpolants c))"
      using select_segment_range[OF assms(2)] assms(3) by simp
  qed
  then have "eval_groups c tt (map (\<lambda>i. tt ! i) (argsort tt)) 0 (groupby ?segs) \<noteq> Inl IndexError"
    using assms(4,5) by (intro eval_groups_no_IndexError)
  then show ?thesis
    using assms(1) by (auto simp: call_batched_def Let_def hstack_no_IndexError split: sum.splits)
qed

lemma call_single_no_IndexError:
  assumes "\<not> repeated_t c" "0 < n_segments c" "n_segments c = length (interpolants c)"
  shows "call_single c t \<noteq> Inl IndexError"
proof -
  have r: "0 \<le> select_segment c t" "select_segment c t < int (length (interpolants c))"
    using select_segment_range[OF assms(2)] assms(3) by simp_all
  have "py_index (interpolants c) (select_segment c t) = Inr (interpolants c ! nat (select_segment c t))"
    using r by (rule py_index_in_range)
  then show ?thesis
    using assms(1)
    by (simp add: call_single_def discont_hit_def Let_def eval_history_no_IndexError
        call_interp_no_IndexError)
qed

section \<open>Instances without a flagged pair\<close>

lemma no_flag_ascending:
  assumes c: "construct ts0 interps ys0 = Inr c" and r: "\<not> repeated_t c"
  shows "ascending c" "ts_sorted c = ts c" "sorted_wrt (<) (ts c)" "ts c = ts0"
proof -
  note f = construct_fields[OF c]
  have nf: "\<not> list_ex (\<lambda>d. d < EPS) (diff ts0)" using f(5) r by simp
  then have "\<not> (\<exists>i. 0 < i \<and> i < length ts0 \<and> ts0 ! i - ts0 ! (i - 1) < EPS)"
    unfolding diff_ex_iff .
  then have steps: "\<forall>i. 0 < i \<and> i < length ts0 \<longrightarrow> EPS \<le> ts0 ! i - ts0 ! (i - 1)"
    by (meson not_less)
  show t: "ts c = ts0" using f(7) r by simp
  show s: "sorted_wrt (<) (ts c)" unfolding t using steps by (rule steps_imp_increasing)
  have ne: "ts c \<noteq> []" using f(3) by auto
  have "ts c ! 0 \<le> ts c ! (length (ts c) - 1)"
    using strict_sorted_imp_sorted[OF s] ne by (intro sorted_nth_mono) auto
  then show a: "ascending c" using f(11) hd_last_nth[OF ne] by simp
  show "ts_sorted c = ts c" using f(12) a by simp
qed

section \<open>Truncation keeps the queries it does not cut off\<close>

text \<open>
  \<open>reorganize\<close> changes \<open>ts\<close> and \<open>interpolants\<close> only. Evaluation never reads
  \<open>ts\<close>, and reads \<open>interpolants\<close> at the selected segments: a query whose segments
  index the truncated list as they index the full one gives the same result.
\<close>

lemma searchsorted_left_takeWhile:
  assumes "sorted a"
  shows "searchsorted_left a key = length (takeWhile (\<lambda>x. x < key) a)"
proof (rule searchsorted_left_eq[OF assms])
  let ?k = "length (takeWhile (\<lambda>x. x < key) a)"
  show "?k \<le> length a" by (rule length_takeWhile_le)
  show "\<forall>i<?k. a ! i < key"
    by (auto dest: nth_length_takeWhile simp: takeWhile_nth[symmetric] dest!: nth_mem set_takeWhileD)
  show "\<forall>i. ?k \<le> i \<and> i < length a \<longrightarrow> key \<le> a ! i"
  proof (intro allI impI)
    fix i assume i: "?k \<le> i \<and> i < length a"
    then have "?k < length a" by simp
    then have "\<not> a ! ?k < key" by (rule nth_length_takeWhile)
    moreover have "a ! ?k \<le> a ! i" using assms i by (intro sorted_nth_mono) auto
    ultimately show "key \<le> a ! i" by simp
  qed
qed

lemma py_index_take:
  "0 \<le> s \<Longrightarrow> s < int idx \<Longrightarrow> py_index (take idx xs) s = py_index xs s"
  by (auto simp: py_index_def)

lemma reorganize_fields:
  "repeated_t (reorganize c t0) = repeated_t c"
  "t_discont (reorganize c t0) = t_discont c"
  "y_discont (reorganize c t0) = y_discont c"
  "ys (reorganize c t0) = ys c"
  "n_segments (reorganize c t0) = n_segments c"
  "ascending (reorganize c t0) = ascending c"
  "ts_sorted (reorganize c t0) = ts_sorted c"
  "ts (reorganize c t0) = take (searchsorted_left (ts c) t0 + 1) (ts c)"
  "interpolants (reorganize c t0) = take (searchsorted_left (ts c) t0 + 1) (interpolants c)"
  by (simp_all add: reorganize_def Let_def)

lemma reorganize_segment:
  "select_segment (reorganize c t0) t = select_segment c t"
  "batch_segment (reorganize c t0) t = batch_segment c t"
  "discont_hit (reorganize c t0) t = discont_hit c t"
  by (simp_all add: select_segment_def batch_segment_def discont_hit_def reorganize_fields)

lemma call_single_reorganize:
  assumes "py_index (take (searchsorted_left (ts c) t0 + 1) (interpolants c)) (select_segment c t)
      = py_index (interpolants c) (select_segment c t)"
  shows "call_single (reorganize c t0) t = call_single c t"
  using assms by (simp add: call_single_def reorganize_segment reorganize_fields Let_def)

lemma eval_group_reorganize:
  assumes e: "py_index (take (searchsorted_left (ts c) t0 + 1) (interpolants c)) s
      = py_index (interpolants c) s"
  shows "eval_group (reorganize c t0) t tsd s gs ge = eval_group c t tsd s gs ge"
  unfolding eval_group_def reorganize_fields(4,9) e
  by (cases "s = 0") simp_all

lemma eval_groups_reorganize:
  assumes "\<forall>s \<in> fst ` set groups.
      py_index (take (searchsorted_left (ts c) t0 + 1) (interpolants c)) s
        = py_index (interpolants c) s"
  shows "eval_groups (reorganize c t0) t tsd gs groups = eval_groups c t tsd gs groups"
  using assms
proof (induction groups arbitrary: gs)
  case Nil
  then show ?case by simp
next
  case (Cons g groups)
  obtain s l where g: "g = (s, l)" by (cases g)
  have "eval_group (reorganize c t0) t tsd s gs (gs + l) = eval_group c t tsd s gs (gs + l)"
    using Cons.prems g by (intro eval_group_reorganize) auto
  moreover have "eval_groups (reorganize c t0) t tsd (gs + l) groups
      = eval_groups c t tsd (gs + l) groups"
    using Cons by auto
  ultimately show ?case by (auto simp: g Let_def split: sum.splits)
qed

lemma set_drop_idxs: "set (drop_idxs ix xs) \<subseteq> set xs"
proof -
  have "set (drop_idxs ix xs) \<subseteq> snd ` set (enumerate 0 xs)"
    by (auto simp: drop_idxs_def)
  also have "\<dots> = set xs" by (metis map_snd_enumerate set_map)
  finally show ?thesis .
qed

lemma set_sorted_times: "set (map (\<lambda>i. t ! i) (argsort t)) \<subseteq> set t"
  by (auto simp: argsort_def)

lemma call_batched_reorganize:
  assumes "\<forall>u \<in> set tt.
      py_index (take (searchsorted_left (ts c) t0 + 1) (interpolants c)) (select_segment c u)
        = py_index (interpolants c) (select_segment c u)"
  shows "call_batched (reorganize c t0) tt = call_batched c tt"
proof -
  define t where "t = (if repeated_t c then drop_idxs (dup_idxs tt) tt else tt)"
  let ?tsd = "map (\<lambda>i. t ! i) (argsort t)"
  let ?segs = "map (batch_segment c) ?tsd"
  have "set t \<subseteq> set tt"
    using set_drop_idxs[of "dup_idxs tt" tt] by (simp add: t_def)
  with set_sorted_times[of t] have sub: "set ?tsd \<subseteq> set tt"
    by (rule subset_trans)
  have "\<forall>s \<in> fst ` set (groupby ?segs).
      py_index (take (searchsorted_left (ts c) t0 + 1) (interpolants c)) s
        = py_index (interpolants c) s"
  proof
    fix s assume "s \<in> fst ` set (groupby ?segs)"
    then have "s \<in> set ?segs" using groupby_segments by blast
    then obtain u where "u \<in> set ?tsd" "s = select_segment c u"
      by (auto simp: batch_segment_eq)
    then show "py_index (take (searchsorted_left (ts c) t0 + 1) (interpolants c)) s
        = py_index (interpolants c) s"
      using assms sub by blast
  qed
  then have "eval_groups (reorganize c t0) t ?tsd 0 (groupby ?segs)
      = eval_groups c t ?tsd 0 (groupby ?segs)"
    by (rule eval_groups_reorganize)
  then show ?thesis
    unfolding call_batched_def reorganize_fields reorganize_segment Let_def t_def[symmetric]
    by simp
qed

section \<open>Truncation at a boundary of an increasing instance\<close>

lemma increasing_ascending:
  assumes c: "construct ts0 interps ys0 = Inr c" and s: "sorted_wrt (<) (ts c)"
  shows "ascending c" "ts_sorted c = ts c"
proof -
  note f = construct_fields[OF c]
  have ne: "ts c \<noteq> []" using f(3) by auto
  have "ts c ! 0 \<le> ts c ! (length (ts c) - 1)"
    using strict_sorted_imp_sorted[OF s] ne by (intro sorted_nth_mono) auto
  then show a: "ascending c" using f(11) hd_last_nth[OF ne] by simp
  show "ts_sorted c = ts c" using f(12) a by simp
qed

lemma reorganize_keeps_index:
  assumes c: "construct ts0 interps ys0 = Inr c" and s: "sorted_wrt (<) (ts c)"
    and k: "k < length (ts c)" and t: "t \<le> ts c ! k"
  shows "py_index (take (searchsorted_left (ts c) (ts c ! k) + 1) (interpolants c)) (select_segment c t)
      = py_index (interpolants c) (select_segment c t)"
proof (cases "interps = []")
  case True
  then show ?thesis using construct_fields(1)[OF c] by simp
next
  case False
  note f = construct_fields[OF c]
  note a = increasing_ascending[OF c s]
  have pos: "0 < n_segments c" using f(2) False by simp
  have idx: "searchsorted_left (ts c) (ts c ! k) = k"
    using s k by (rule searchsorted_left_at_boundary)
  have "searchsorted_left (ts c) t \<le> k"
    using strict_sorted_imp_sorted[OF s] k t by (rule searchsorted_left_upper)
  then have "select_segment c t < int (k + 1)"
    using a pos by (simp add: select_segment_def Let_def)
  moreover have "0 \<le> select_segment c t" using select_segment_range[OF pos] by simp
  ultimately show ?thesis unfolding idx by (intro py_index_take)
qed

section \<open>The recorded jumps of non-decreasing boundaries\<close>

lemma dup_idxs_split:
  assumes "0 < i" "i < length xs" "xs ! i - xs ! (i - 1) < EPS"
  shows "dup_idxs xs =
      filter (\<lambda>j. xs ! j - xs ! (j - 1) < EPS) [1..<i] @ i #
      filter (\<lambda>j. xs ! j - xs ! (j - 1) < EPS) [Suc i..<length xs]"
proof -
  have "[1..<length xs] = [1..<i] @ [i..<length xs]"
    using assms(1,2) upt_add_eq_append[of 1 i "length xs - i"] by simp
  also have "[i..<length xs] = i # [Suc i..<length xs]"
    using assms(2) by (rule upt_conv_Cons)
  finally show ?thesis using assms(3) by (simp add: dup_idxs_def)
qed

lemma sorted_dup_idxs: "sorted_wrt (<) (dup_idxs xs)"
  by (simp add: dup_idxs_def sorted_wrt_filter)

lemma sorted_map_nth:
  assumes "sorted (xs :: real list)" "sorted_wrt (<) ds" "\<forall>d \<in> set ds. d < length xs"
  shows "sorted (map (\<lambda>d. xs ! d) ds)"
proof -
  have "sorted_wrt (\<lambda>a b. xs ! a \<le> xs ! b) ds"
    using assms(2)
  proof (rule sorted_wrt_mono_rel[rotated])
    fix a b assume "a \<in> set ds" "b \<in> set ds" "a < b"
    then show "xs ! a \<le> xs ! b" using assms(1,3) by (intro sorted_nth_mono) auto
  qed
  then show ?thesis by (simp add: sorted_wrt_map)
qed

lemma sorted_drop_idxs:
  assumes "sorted (xs :: real list)"
  shows "sorted (drop_idxs ix xs)"
proof -
  have "sorted_wrt (\<lambda>a b. snd a \<le> snd b) (enumerate 0 xs)"
    using assms by (simp add: sorted_wrt_map[symmetric] map_snd_enumerate)
  then have "sorted_wrt (\<lambda>a b. snd a \<le> snd b) (filter (\<lambda>(j, x). j \<notin> set ix) (enumerate 0 xs))"
    by (rule sorted_wrt_filter)
  then show ?thesis by (simp add: drop_idxs_def sorted_wrt_map)
qed

lemma sorted_hd_le_last: "sorted (xs :: real list) \<Longrightarrow> xs \<noteq> [] \<Longrightarrow> hd xs \<le> last xs"
  by (simp add: hd_conv_nth last_conv_nth sorted_nth_mono)

section \<open>Decreasing boundaries\<close>

text \<open>
  Every step of a strictly decreasing sequence is below \<open>EPS\<close>, so every index but
  the first is flagged and removed: with two boundaries or more and matching lengths
  the constructor raises.
\<close>

lemma drop_idxs_all_but_first:
  assumes "xs \<noteq> []"
  shows "drop_idxs [1..<length xs] xs = [hd xs]"
proof -
  obtain x rest where xs: "xs = x # rest" using assms by (cases xs) auto
  define ix where "ix = [1..<length xs]"
  have f: "filter (\<lambda>(j, y). j \<notin> set ix) (enumerate (Suc 0) rest) = []"
    by (auto simp: filter_empty_conv in_set_enumerate_eq xs ix_def)
  have k: "0 \<notin> set ix" by (simp add: ix_def)
  have "drop_idxs ix xs = [hd xs]"
    by (simp add: drop_idxs_def xs f k)
  then show ?thesis by (simp only: ix_def)
qed

lemma dup_idxs_decreasing:
  assumes "sorted_wrt (>) ts0"
  shows "dup_idxs ts0 = [1..<length ts0]"
proof -
  have "\<forall>i \<in> set [1..<length ts0]. ts0 ! i - ts0 ! (i - 1) < EPS"
  proof
    fix i assume "i \<in> set [1..<length ts0]"
    then have "ts0 ! i < ts0 ! (i - 1)"
      using assms by (auto simp: sorted_wrt_iff_nth_less)
    then show "ts0 ! i - ts0 ! (i - 1) < EPS" using EPS_pos by simp
  qed
  then show ?thesis by (simp add: dup_idxs_def)
qed

lemma construct_decreasing_rejected:
  assumes "sorted_wrt (>) ts0" "2 \<le> length ts0"
    and "length interps + 1 = length ts0" "length ys0 = length ts0"
  shows "construct ts0 interps ys0 = Inl ValueError"
proof -
  have ne: "ts0 \<noteq> []" using assms(2) by auto
  have d: "dup_idxs ts0 = [1..<length ts0]" using assms(1) by (rule dup_idxs_decreasing)
  have t: "drop_idxs (dup_idxs ts0) ts0 = [hd ts0]"
    unfolding d using ne by (rule drop_idxs_all_but_first)
  have i: "\<not> list_ex (\<lambda>i. length ys0 \<le> i) (dup_idxs ts0)"
    unfolding d using assms(4) by (auto simp: list_ex_iff)
  show ?thesis
    unfolding construct_alt Let_def t using i assms(2,3) by simp
qed

section \<open>The initial step for a state of one component\<close>

lemma norm_rms_nonneg: "0 \<le> norm_rms x"
  unfolding norm_rms_def
  by (intro divide_nonneg_nonneg real_sqrt_ge_zero sum_list_nonneg) auto






section \<open>The claims\<close>

text \<open>
  C1. Batched evaluation is claimed to return, column by column, what the scalar path
  returns for each time, in the order of the input. The code does not: for a run of
  the history segment the loop evaluates the history at \<open>t[k]\<close>, the first entries
  of the unsorted input, instead of the sorted times of the run. With boundaries
  \<open>[0, 1, 2]\<close>, a history \<open>t \<mapsto> [t]\<close> and the query \<open>[1.5, 0.5]\<close> the second column
  is the history at 1.5, where the scalar path gives the history at 0.5.
\<close>

theorem C1_batched_history_reads_unsorted_input:
  "construct [0, 1, 2] [Function (\<lambda>t. [t]), DenseOutput (\<lambda>t. [10 * t])] [[0], [1], [2]]
     = Inr inst_fun_history
   \<and> call_batched inst_fun_history [3 / 2, 1 / 2] = Inr [[15], [3 / 2]]
   \<and> call_single inst_fun_history (3 / 2) = Inr [15]
   \<and> call_single inst_fun_history (1 / 2) = Inr [1 / 2]"
  by (simp add: construct_fun_history call_batched_fun_history call_single_fun_history)

theorem C1_batched_differs_from_scalar:
  "call_batched inst_fun_history [3 / 2, 1 / 2]
     \<noteq> collect (map (call_single inst_fun_history) [3 / 2, 1 / 2])"
  using C1_batched_history_reads_unsorted_input
  by (simp add: call_single_fun_history)

text \<open>
  C2. Construction is claimed to succeed for every strictly monotonic boundary
  sequence with matching lengths. A strictly increasing sequence with a step below
  \<open>EPS\<close> is read as a jump and loses a boundary, so the lengths no longer match and
  the constructor raises. What holds: when every step is at least \<open>EPS\<close> (the
  sequence is then strictly increasing) and the lengths match, construction succeeds,
  keeps the boundaries, and \<open>t_min\<close>, \<open>t_max\<close> are their least and greatest value.
\<close>

theorem C2_increasing_boundaries_construct:
  assumes steps: "\<forall>i. 0 < i \<and> i < length ts0 \<longrightarrow> EPS \<le> ts0 ! i - ts0 ! (i - 1)"
    and len: "length interps + 1 = length ts0" "length ys0 = length ts0"
  shows "sorted_wrt (<) ts0 \<and>
    (\<exists>c. construct ts0 interps ys0 = Inr c \<and> ts c = ts0 \<and> ascending c \<and> \<not> repeated_t c
       \<and> t_min c = Min (set ts0) \<and> t_max c = Max (set ts0))"
proof -
  have s: "sorted_wrt (<) ts0" using steps by (rule steps_imp_increasing)
  have ne: "ts0 \<noteq> []" using len by auto
  have nf: "dup_idxs ts0 = []" using steps by (rule steps_imp_no_flag)
  have "hd ts0 = ts0 ! 0" "last ts0 = ts0 ! (length ts0 - 1)"
    using ne by (simp_all add: hd_conv_nth last_conv_nth)
  moreover have "ts0 ! 0 \<le> ts0 ! (length ts0 - 1)"
    using strict_sorted_imp_sorted[OF s] ne by (intro sorted_nth_mono) auto
  ultimately have hl: "hd ts0 \<le> last ts0" by simp
  show ?thesis
    using s ne len hl
    by (simp add: construct_alt nf drop_idxs_Nil Let_def sorted_Min_hd sorted_Max_last)
qed

theorem C2_increasing_boundaries_construct_witness:
  "sorted_wrt (<) [0, 1, 2 :: real]
   \<and> (\<exists>c. construct [0, 1, 2] [Function (\<lambda>t. [t]), DenseOutput (\<lambda>t. [10 * t])] [[0], [1], [2]]
          = Inr c \<and> ts c = [0, 1, 2] \<and> t_min c = 0 \<and> t_max c = 2)"
proof -
  have st: "\<forall>i. 0 < i \<and> i < length [0, 1, 2 :: real]
      \<longrightarrow> EPS \<le> [0, 1, 2 :: real] ! i - [0, 1, 2] ! (i - 1)"
    by (auto simp: EPS_def less_Suc_eq)
  have m: "Min (set [0, 1, 2 :: real]) = 0" "Max (set [0, 1, 2 :: real]) = 2"
    by simp_all
  show ?thesis
    using C2_increasing_boundaries_construct[OF st, of "[Function (\<lambda>t. [t]), DenseOutput (\<lambda>t. [10 * t])]" "[[0], [1], [2]]"]
    unfolding m by auto
qed

theorem C2_small_step_rejected:
  "sorted_wrt (<) [0, 1 / 2 ^ 53, 1 :: real]
   \<and> length [Constant [0], DenseOutput (\<lambda>t. [t])] = length [0, 1 / 2 ^ 53, 1 :: real] - 1
   \<and> length [[0], [0], [0 :: real]] = length [0, 1 / 2 ^ 53, 1 :: real]
   \<and> construct [0, 1 / 2 ^ 53, 1] [Constant [0], DenseOutput (\<lambda>t. [t])] [[0], [0], [0]]
       = Inl ValueError"
  by (simp add: construct_eval)

text \<open>
  C3. A query at a boundary \<open>ts[i]\<close> with \<open>i > 0\<close> selects segment \<open>i - 1\<close>, the
  lower of the two segments that meet there, for an ascending and for a descending
  instance. Unless the time is one of the recorded jump times, the scalar path then
  evaluates the interpolant of that segment. An instance without jumps never takes
  the jump branch, so the statement covers it.
\<close>

theorem C3_boundary_selects_lower_segment:
  assumes c: "construct ts0 interps ys0 = Inr c" and i: "0 < i" "i < length (ts c)"
  shows "select_segment c (ts c ! i) = int i - 1
    \<and> (\<not> discont_hit c (ts c ! i) \<longrightarrow>
         call_single c (ts c ! i) =
           (if i = 1 then eval_history (interps ! 0) (ts c ! i)
            else call_interp (interps ! (i - 1)) (ts c ! i)))"
proof -
  note f = construct_fields[OF c]
  have len: "length (ts c) = n_segments c + 1" using f(2,3) by simp
  have ne: "ts c \<noteq> []" using i by auto
  note hl = hd_last_nth[OF ne]
  consider (inc) "sorted_wrt (<) (ts c)" | (dec) "sorted_wrt (>) (ts c)"
    | (zero) "length (ts c) = 2" "hd (ts c) = last (ts c)"
    using f(16) by blast
  then have seg: "select_segment c (ts c ! i) = int i - 1"
  proof cases
    case inc
    have "ts c ! 0 < ts c ! (length (ts c) - 1)"
      using inc i by (intro strict_sorted_nth_less) auto
    then have asc: "ascending c" using f(11) hl by simp
    then have "ts_sorted c = ts c" using f(12) by simp
    then show ?thesis using asc inc len i by (intro select_segment_ascending) auto
  next
    case dec
    have "ts c ! (length (ts c) - 1) < ts c ! 0"
      using dec i by (simp add: sorted_wrt_iff_nth_less)
    then have asc: "\<not> ascending c" using f(11) hl by simp
    then have "ts_sorted c = rev (ts c)" using f(12) by simp
    then show ?thesis using asc dec len i by (intro select_segment_descending) auto
  next
    case zero
    then have "ascending c" "n_segments c = 1" "i = 1" using f(11) len i by auto
    then show ?thesis using select_segment_one_segment[of c] by simp
  qed
  have idx: "py_index (interpolants c) (int i - 1) = Inr (interps ! (i - 1))"
    using i f(1,3) by (simp add: py_index_def nat_diff_distrib')
  have "call_single c (ts c ! i) =
      (if i = 1 then eval_history (interps ! 0) (ts c ! i)
       else call_interp (interps ! (i - 1)) (ts c ! i))"
    if "\<not> discont_hit c (ts c ! i)"
    using that i by (auto simp: call_single_def seg idx Let_def)
  with seg show ?thesis by blast
qed

theorem C3_boundary_selects_lower_segment_witness:
  "construct [0, 1, 2] [Function (\<lambda>t. [t]), DenseOutput (\<lambda>t. [10 * t])] [[0], [1], [2]]
     = Inr inst_fun_history
   \<and> ascending inst_fun_history
   \<and> select_segment inst_fun_history 1 = 0
   \<and> call_single inst_fun_history 1 = Inr [1]
   \<and> construct [9, 1, 5, 0, 3] [Function (\<lambda>t. [t]), DenseOutput (\<lambda>t. [10 * t])]
       [[5], [7], [9], [1], [2]] = Inr inst_descending
   \<and> \<not> ascending inst_descending
   \<and> select_segment inst_descending 5 = 0
   \<and> call_single inst_descending 5 = Inr [5]"
proof -
  have a: "ts inst_fun_history ! Suc 0 = 1" "length (ts inst_fun_history) = 3"
      "\<not> discont_hit inst_fun_history 1" "ascending inst_fun_history"
    by (simp_all add: inst_fun_history_def discont_hit_def)
  have d: "ts inst_descending ! Suc 0 = 5" "length (ts inst_descending) = 3"
      "\<not> discont_hit inst_descending 5" "\<not> ascending inst_descending"
    by (simp_all add: inst_descending_def discont_hit_def EPS_def)
  show ?thesis
    using C3_boundary_selects_lower_segment[OF construct_fun_history, of 1] C3_boundary_selects_lower_segment[OF construct_descending, of 1]
    by (simp add: a d construct_fun_history construct_descending eval_history_def)
qed

text \<open>
  C4. A query at a duplicated time is claimed to return the state value at the second
  index of the pair. The jump value is looked up by a left search in the recorded
  times, which finds the first record of that time: with three boundaries at time 1
  the pair of indices 2 and 3 is flagged, and the query gives the value at index 2,
  not at index 3. On the descending instance of \<open>[5, 1, 3, 3]\<close> the right search
  runs past the end of the records. What holds: for non-decreasing input boundaries
  and a flagged index \<open>i\<close> with no earlier flagged index at the same time, the
  constructor records \<open>ts[i]\<close> and \<open>ys[i]\<close> at the same position of \<open>t_discont\<close> and
  \<open>y_discont\<close>, and the scalar query at \<open>ts[i]\<close> returns \<open>ys[i]\<close>.
\<close>

theorem C4_query_at_jump:
  assumes c: "construct ts0 interps ys0 = Inr c" and srt: "sorted ts0"
    and i: "0 < i" "i < length ts0" and flag: "ts0 ! i - ts0 ! (i - 1) < EPS"
    and first: "\<forall>j. 0 < j \<and> j < i \<and> ts0 ! j - ts0 ! (j - 1) < EPS \<longrightarrow> ts0 ! j \<noteq> ts0 ! i"
  shows "(\<exists>k < length (idxs c). idxs c ! k = i \<and> t_discont c ! k = ts0 ! i
            \<and> y_discont c ! k = ys0 ! i)
    \<and> call_single c (ts0 ! i) = Inr (ys0 ! i)"
proof -
  note f = construct_fields[OF c]
  let ?P = "\<lambda>j. ts0 ! j - ts0 ! (j - 1) < EPS"
  let ?pre = "filter ?P [1..<i]" and ?post = "filter ?P [Suc i..<length ts0]"
  let ?k = "length ?pre"
  have split: "dup_idxs ts0 = ?pre @ i # ?post" using i flag by (rule dup_idxs_split)
  have rep: "repeated_t c"
    using f(5) i flag by (auto simp: diff_ex_iff)
  then have ix: "idxs c = dup_idxs ts0" using f(6) by simp
  have klen: "?k < length (idxs c)" by (simp add: ix split)
  have kth: "idxs c ! ?k = i" by (simp add: ix split nth_append)
  have td: "t_discont c ! ?k = ts0 ! i" and yd: "y_discont c ! ?k = ys0 ! i"
    using klen kth by (simp_all add: f(9,10))
  have bound: "\<forall>d \<in> set (idxs c). d < length ts0"
    unfolding ix set_dup_idxs by simp
  have sd: "sorted (t_discont c)"
    unfolding f(9) using srt sorted_dup_idxs[of ts0] bound unfolding ix by (rule sorted_map_nth)
  have below: "\<forall>m<?k. t_discont c ! m < ts0 ! i"
  proof (intro allI impI)
    fix m assume m: "m < ?k"
    then have e: "idxs c ! m = ?pre ! m" by (simp add: ix split nth_append)
    have "?pre ! m \<in> set ?pre" using m by (rule nth_mem)
    then have j: "0 < ?pre ! m" "?pre ! m < i" "?P (?pre ! m)" by auto
    then have "ts0 ! (?pre ! m) \<noteq> ts0 ! i" using first by blast
    moreover have "ts0 ! (?pre ! m) \<le> ts0 ! i"
      using srt j(2) i(2) by (intro sorted_nth_mono) auto
    moreover have "t_discont c ! m = ts0 ! (?pre ! m)"
      using m klen e by (simp add: f(9))
    ultimately show "t_discont c ! m < ts0 ! i" by simp
  qed
  have above: "\<forall>m. ?k \<le> m \<and> m < length (t_discont c) \<longrightarrow> ts0 ! i \<le> t_discont c ! m"
  proof (intro allI impI)
    fix m assume m: "?k \<le> m \<and> m < length (t_discont c)"
    then have ml: "m < length (idxs c)" by (simp add: f(9))
    have "i \<le> idxs c ! m"
    proof (cases "m = ?k")
      case True
      then show ?thesis using kth by simp
    next
      case False
      then have "?k < m" using m by simp
      then have "idxs c ! ?k < idxs c ! m"
        using sorted_dup_idxs[of ts0] ml unfolding ix by (intro sorted_wrt_nth_less) auto
      then show ?thesis using kth by simp
    qed
    moreover have "idxs c ! m < length ts0" using bound ml by simp
    ultimately have "ts0 ! i \<le> ts0 ! (idxs c ! m)" using srt by (intro sorted_nth_mono) auto
    then show "ts0 ! i \<le> t_discont c ! m" using ml by (simp add: f(9))
  qed
  have search: "searchsorted_left (t_discont c) (ts0 ! i) = ?k"
    using sd _ below above
  proof (rule searchsorted_left_eq)
    show "?k \<le> length (t_discont c)" using klen by (simp add: f(9))
  qed
  have "sorted (ts c)" using f(7) rep srt by (simp add: sorted_drop_idxs)
  moreover have "ts c \<noteq> []" using f(3) by auto
  ultimately have asc: "ascending c" using f(11) by (simp add: sorted_hd_le_last)
  have "ts0 ! i \<in> set (t_discont c)"
    using td klen by (metis f(9) length_map nth_mem)
  moreover have "\<bar>ts0 ! i - ts0 ! i\<bar> < EPS" using EPS_pos by simp
  ultimately have "\<exists>x \<in> set (t_discont c). \<bar>x - ts0 ! i\<bar> < EPS" by blast
  then have hit: "discont_hit c (ts0 ! i)"
    using rep by (simp add: discont_hit_def list_ex_iff)
  have "py_index (y_discont c) (int ?k) = Inr (y_discont c ! ?k)"
    using klen by (simp add: py_index_def f(10))
  then have "call_single c (ts0 ! i) = Inr (ys0 ! i)"
    using hit asc search yd by (simp add: call_single_def Let_def)
  then show ?thesis using klen kth td yd by blast
qed

theorem C4_query_at_jump_witness:
  "construct [0, 1, 1, 2] [Function (\<lambda>t. [t]), DenseOutput (\<lambda>t. [10 * t])]
     [[0], [1], [2], [3]] = Inr inst_jump
   \<and> t_discont inst_jump = [1]
   \<and> y_discont inst_jump = [[2]]
   \<and> call_single inst_jump 1 = Inr [2]"
proof -
  have s: "sorted [0, 1, 1, 2 :: real]" by simp
  have fl: "[0, 1, 1, 2 :: real] ! 2 - [0, 1, 1, 2] ! (2 - 1) < EPS" by (simp add: EPS_def)
  have fi: "\<forall>j. 0 < j \<and> j < 2 \<and> [0, 1, 1, 2 :: real] ! j - [0, 1, 1, 2] ! (j - 1) < EPS
      \<longrightarrow> [0, 1, 1, 2 :: real] ! j \<noteq> [0, 1, 1, 2] ! 2"
    by (auto simp: EPS_def less_Suc_eq numeral_2_eq_2)
  have "call_single inst_jump ([0, 1, 1, 2] ! 2) = Inr ([[0], [1], [2], [3]] ! 2)"
    using C4_query_at_jump[OF construct_jump s _ _ fl fi] by simp
  then show ?thesis by (simp add: construct_jump) (simp add: inst_jump_def)
qed

theorem C4_jump_value_not_returned:
  "construct [0, 1, 1, 1, 2] [Function (\<lambda>t. [t]), DenseOutput (\<lambda>t. [10 * t])]
     [[0], [1], [2], [3], [4]] = Inr inst_triple
   \<and> \<bar>[0, 1, 1, 1, 2 :: real] ! 3 - [0, 1, 1, 1, 2] ! 2\<bar> < EPS
   \<and> call_single inst_triple ([0, 1, 1, 1, 2] ! 3) \<noteq> Inr ([[0], [1], [2], [3], [4]] ! 3)
   \<and> construct [5, 1, 3, 3] [Function (\<lambda>t. [t])] [[0], [1], [2], [3]] = Inr inst_unsorted
   \<and> \<bar>[5, 1, 3, 3 :: real] ! 3 - [5, 1, 3, 3] ! 2\<bar> < EPS
   \<and> call_single inst_unsorted ([5, 1, 3, 3] ! 3) = Inl IndexError"
  by (simp add: construct_triple construct_unsorted call_single_triple call_single_unsorted EPS_def)

text \<open>
  C5. On an instance that holds discontinuities, a batched query without adjacent
  near-duplicate times is claimed to fail with a ValueError. The guard tests
  \<open>np.diff(t) < EPS\<close> with the sign of the step, so every step down passes for a
  marker: on the instance built from \<open>[0, 1, 1, 2]\<close> the query \<open>[2, 1]\<close>, which has
  no two times closer than 1, is not rejected. Its second entry is deleted and the
  recorded jump value is returned in its place.
\<close>

theorem C5_descending_query_not_rejected:
  "construct [0, 1, 1, 2] [Function (\<lambda>t. [t]), DenseOutput (\<lambda>t. [10 * t])]
     [[0], [1], [2], [3]] = Inr inst_jump
   \<and> \<bar>[2, 1 :: real] ! 1 - [2, 1] ! 0\<bar> = 1
   \<and> call_batched inst_jump [2, 1] = Inr [[20], [2]]"
  by (simp add: construct_jump call_batched_jump_descending_query)

theorem C5_descending_query_returns:
  "call_batched inst_jump [2, 1] \<noteq> Inl ValueError"
  using C5_descending_query_not_rejected by simp

text \<open>
  C6. A boundary sequence that is not monotonic is claimed to be rejected with the
  ValueError of the validation, and so is an input whose lengths do not match. The
  code accepts \<open>[0, 2, 1]\<close> with one interpolant: the step down from 2 to 1 is below
  \<open>EPS\<close> when taken with its sign, so the entry 1 is removed as if it repeated the
  entry 2, and the two boundaries left pass both checks, although no two of the three
  times are closer than 1 and three boundaries do not match one interpolant. On
  \<open>[0, 1, 1]\<close> with two state values the lengths do not match either, and the code
  raises an IndexError when it reads the jump value, before the validation is reached.
\<close>

theorem C6_non_monotonic_accepted:
  "\<not> sorted_wrt (<) [0, 2, 1 :: real]
   \<and> \<not> sorted_wrt (>) [0, 2, 1 :: real]
   \<and> EPS \<le> \<bar>[0, 2, 1 :: real] ! 1 - [0, 2, 1] ! 0\<bar>
   \<and> EPS \<le> \<bar>[0, 2, 1 :: real] ! 2 - [0, 2, 1] ! 1\<bar>
   \<and> length [0, 2, 1 :: real] \<noteq> length [Function (\<lambda>t. [t])] + 1
   \<and> construct [0, 2, 1] [Function (\<lambda>t. [t])] [[0], [2], [1]] = Inr inst_step_down
   \<and> ts inst_step_down = [0, 2]
   \<and> length [[0], [1 :: real]] \<noteq> length [0, 1, 1 :: real]
   \<and> construct [0, 1, 1] [Constant [0]] [[0], [1]] = Inl IndexError"
  by (simp add: construct_step_down construct_short_ys EPS_def)
    (simp add: inst_step_down_def)

theorem C6_non_monotonic_not_ValueError:
  "construct [0, 2, 1] [Function (\<lambda>t. [t])] [[0], [2], [1]] \<noteq> Inl ValueError
   \<and> construct [0, 1, 1] [Constant [0]] [[0], [1]] \<noteq> Inl ValueError"
  using C6_non_monotonic_accepted by simp

text \<open>
  C7. A boundary sequence of two equal times with one interpolant and two state
  values is documented as accepted (the zero segment). The code rejects it: the zero
  gap is below \<open>EPS\<close>, so the second boundary is taken for a jump and removed, and
  the one boundary left does not match the one interpolant.
\<close>

theorem C7_zero_segment_rejected:
  "construct [a, a] [h] [y0, y1] = Inl ValueError"
  by (simp add: construct_eval)

theorem C7_zero_segment_rejected_at_0:
  "construct [0, 0] [Constant [5]] [[5], [5]] = Inl ValueError"
  by (rule C7_zero_segment_rejected)

text \<open>
  C8. \<open>reorganize\<close> searches \<open>self.ts\<close> itself with a left search. On an instance
  whose boundaries descend the search does not find the position of a boundary: with
  boundaries \<open>[9, 5, 3]\<close> and the new end 5 it keeps \<open>[9]\<close> alone. What holds: on a
  constructed instance with strictly increasing boundaries, \<open>ts\<close> and \<open>interpolants\<close>
  become their prefixes of length \<open>p + 1\<close>, \<open>p\<close> the number of boundaries below the new
  end; when the new end is the boundary \<open>ts[k]\<close>, \<open>ts\<close> ends at it, \<open>interpolants\<close>
  keeps the entries up to \<open>k\<close>, and every scalar query and every batched query at times
  up to the new end returns what it returned before.
\<close>

theorem C8_reorganize_increasing:
  assumes c: "construct ts0 interps ys0 = Inr c" and s: "sorted_wrt (<) (ts c)"
  shows "ts (reorganize c t0) = take (length (takeWhile (\<lambda>x. x < t0) (ts c)) + 1) (ts c)
    \<and> interpolants (reorganize c t0)
        = take (length (takeWhile (\<lambda>x. x < t0) (ts c)) + 1) (interpolants c)
    \<and> (\<forall>k < length (ts c). t0 = ts c ! k \<longrightarrow>
          ts (reorganize c t0) = take (k + 1) (ts c)
          \<and> last (ts (reorganize c t0)) = t0
          \<and> interpolants (reorganize c t0) = take (k + 1) (interpolants c)
          \<and> (\<forall>t \<le> t0. call_single (reorganize c t0) t = call_single c t)
          \<and> (\<forall>tt. list_all (\<lambda>t. t \<le> t0) tt
                \<longrightarrow> call_batched (reorganize c t0) tt = call_batched c tt))"
proof -
  have pos: "searchsorted_left (ts c) t0 = length (takeWhile (\<lambda>x. x < t0) (ts c))"
    using strict_sorted_imp_sorted[OF s] by (rule searchsorted_left_takeWhile)
  have gen: "ts (reorganize c t0) = take (length (takeWhile (\<lambda>x. x < t0) (ts c)) + 1) (ts c)"
    "interpolants (reorganize c t0)
        = take (length (takeWhile (\<lambda>x. x < t0) (ts c)) + 1) (interpolants c)"
    by (simp_all add: reorganize_fields pos)
  have at: "ts (reorganize c t0) = take (k + 1) (ts c)
          \<and> last (ts (reorganize c t0)) = t0
          \<and> interpolants (reorganize c t0) = take (k + 1) (interpolants c)
          \<and> (\<forall>t \<le> t0. call_single (reorganize c t0) t = call_single c t)
          \<and> (\<forall>tt. list_all (\<lambda>t. t \<le> t0) tt
                \<longrightarrow> call_batched (reorganize c t0) tt = call_batched c tt)"
    if k: "k < length (ts c)" and t0: "t0 = ts c ! k" for k
  proof -
    have idx: "searchsorted_left (ts c) t0 = k"
      unfolding t0 using s k by (rule searchsorted_left_at_boundary)
    have t1: "ts (reorganize c t0) = take (k + 1) (ts c)"
      and i1: "interpolants (reorganize c t0) = take (k + 1) (interpolants c)"
      by (simp_all add: reorganize_fields idx)
    have l1: "last (ts (reorganize c t0)) = t0"
      unfolding t1 using k t0 by (simp add: take_Suc_conv_app_nth)
    have keep: "py_index (take (searchsorted_left (ts c) t0 + 1) (interpolants c)) (select_segment c t)
        = py_index (interpolants c) (select_segment c t)" if "t \<le> t0" for t
      unfolding t0 using c s k that[unfolded t0] by (rule reorganize_keeps_index)
    have q1: "\<forall>t \<le> t0. call_single (reorganize c t0) t = call_single c t"
      using keep by (auto intro: call_single_reorganize)
    have q2: "\<forall>tt. list_all (\<lambda>t. t \<le> t0) tt
                \<longrightarrow> call_batched (reorganize c t0) tt = call_batched c tt"
      using keep by (auto simp: list_all_iff intro!: call_batched_reorganize)
    show ?thesis using t1 l1 i1 q1 q2 by blast
  qed
  show ?thesis using gen at by blast
qed

theorem C8_reorganize_increasing_witness:
  "construct [0, 1, 2] [Function (\<lambda>t. [t]), DenseOutput (\<lambda>t. [10 * t])] [[0], [1], [2]]
     = Inr inst_fun_history
   \<and> ts (reorganize inst_fun_history 1) = [0, 1]
   \<and> length (interpolants (reorganize inst_fun_history 1)) = 2
   \<and> call_single (reorganize inst_fun_history 1) (1 / 2) = Inr [1 / 2]
   \<and> call_batched (reorganize inst_fun_history 1) [1 / 2] = call_batched inst_fun_history [1 / 2]"
proof -
  have i: "ts inst_fun_history = [0, 1, 2]" "sorted_wrt (<) (ts inst_fun_history)"
      "length (interpolants inst_fun_history) = 2"
    by (simp_all add: inst_fun_history_def)
  show ?thesis
    using C8_reorganize_increasing[OF construct_fun_history i(2), of 1]
    by (simp add: i construct_fun_history call_single_fun_history less_Suc_eq all_conj_distrib)
qed

theorem C8_reorganize_descending:
  "construct [9, 1, 5, 0, 3] [Function (\<lambda>t. [t]), DenseOutput (\<lambda>t. [10 * t])]
     [[5], [7], [9], [1], [2]] = Inr inst_descending
   \<and> ts inst_descending = [9, 5, 3]
   \<and> ts (reorganize inst_descending 5) = [9]
   \<and> length (interpolants (reorganize inst_descending 5)) = 1"
  by (simp add: construct_descending)
    (simp add: inst_descending_def reorganize_def searchsorted_left_def bisect.simps)



text \<open>
  C10. Evaluation is claimed never to index outside the interpolant list on an
  instance without discontinuities. Two instances do: one built from a single
  boundary and no interpolant, where the clamp yields \<open>-1\<close>, and one truncated by
  \<open>reorganize\<close>, which shortens the interpolant list and leaves \<open>n_segments\<close> as it
  was. What holds: on an instance as the constructor returns it, without
  discontinuities and with at least one interpolant, the segment index of every time
  is a valid index, a time below \<open>t_min\<close> selects the first and a time above
  \<open>t_max\<close> the last segment, and neither the scalar nor the batched path raises an
  IndexError (for the batched path, provided a history given as a list of splines has
  one spline per state component, which the loop over the components reads).
\<close>

theorem C10_segment_index_in_range:
  assumes c: "construct ts0 interps ys0 = Inr c" and r: "\<not> repeated_t c" and n: "interps \<noteq> []"
  shows "0 \<le> select_segment c t \<and> select_segment c t < int (length (interpolants c))
    \<and> (t < t_min c \<longrightarrow> select_segment c t = 0)
    \<and> (t_max c < t \<longrightarrow> select_segment c t = int (length (interpolants c)) - 1)
    \<and> call_single c t \<noteq> Inl IndexError
    \<and> list_all (\<lambda>u. 0 \<le> batch_segment c u \<and> batch_segment c u < int (length (interpolants c))) tt
    \<and> ((\<forall>fs. interps ! 0 = SplineList fs \<longrightarrow> length (hd (ys c)) \<le> length fs)
         \<longrightarrow> call_batched c tt \<noteq> Inl IndexError)"
proof -
  note f = construct_fields[OF c]
  note a = no_flag_ascending[OF c r]
  have pos: "0 < n_segments c" and len: "n_segments c = length (interpolants c)"
    using f(1,2) n by simp_all
  have ne: "ts c \<noteq> []" and lts: "length (ts c) = n_segments c + 1" using f(2,3) by auto
  have ysne: "ys c \<noteq> []" using f(3,4) by auto
  have rng: "0 \<le> select_segment c u \<and> select_segment c u < int (length (interpolants c))" for u
    using select_segment_range[OF pos] len by simp
  have lo: "select_segment c t = 0" if "t < t_min c"
  proof -
    have "t \<le> ts c ! 0" using that f(13) a(1) hd_last_nth[OF ne] by simp
    then have "searchsorted_left (ts c) t \<le> 0"
      using strict_sorted_imp_sorted[OF a(3)] ne by (intro searchsorted_left_upper) auto
    then show ?thesis using a(1,2) pos by (simp add: select_segment_def Let_def)
  qed
  have hi: "select_segment c t = int (length (interpolants c)) - 1" if "t_max c < t"
  proof -
    have top: "ts c ! (length (ts c) - 1) < t" using that f(14) a(1) hd_last_nth[OF ne] by simp
    have "searchsorted_left (ts c) t = length (ts c)"
    proof (rule searchsorted_left_eq)
      show "sorted (ts c)" using a(3) by (rule strict_sorted_imp_sorted)
      show "\<forall>i<length (ts c). ts c ! i < t"
      proof (intro allI impI)
        fix i assume "i < length (ts c)"
        then have "ts c ! i \<le> ts c ! (length (ts c) - 1)"
          using strict_sorted_imp_sorted[OF a(3)] by (intro sorted_nth_mono) auto
        with top show "ts c ! i < t" by simp
      qed
    qed auto
    then show ?thesis using a(1,2) pos lts len by (simp add: select_segment_def Let_def)
  qed
  have single: "call_single c t \<noteq> Inl IndexError"
    using r pos len by (rule call_single_no_IndexError)
  have batch: "call_batched c tt \<noteq> Inl IndexError"
    if "\<forall>fs. interps ! 0 = SplineList fs \<longrightarrow> length (hd (ys c)) \<le> length fs"
    using r pos len ysne that f(1) by (intro call_batched_no_IndexError) auto
  show ?thesis
    using rng lo hi single batch by (simp add: list_all_iff batch_segment_eq)
qed

theorem C10_segment_index_in_range_witness:
  "construct [0, 1, 2] [Function (\<lambda>t. [t]), DenseOutput (\<lambda>t. [10 * t])] [[0], [1], [2]]
     = Inr inst_fun_history
   \<and> \<not> repeated_t inst_fun_history
   \<and> 7 > t_max inst_fun_history
   \<and> select_segment inst_fun_history 7 = 1
   \<and> call_single inst_fun_history 7 \<noteq> Inl IndexError
   \<and> - 3 < t_min inst_fun_history
   \<and> select_segment inst_fun_history (- 3) = 0
   \<and> call_batched inst_fun_history [7, - 3] \<noteq> Inl IndexError
   \<and> construct [0, 1, 2] [SplineList [\<lambda>t. t], DenseOutput (\<lambda>t. [10 * t])] [[0], [1], [2]]
     = Inr inst_spline_history
   \<and> length (hd (ys inst_spline_history)) = 1
   \<and> call_batched inst_spline_history [7, - 3] \<noteq> Inl IndexError"
proof -
  have i: "\<not> repeated_t inst_fun_history" "t_max inst_fun_history = 2" "t_min inst_fun_history = 0"
      "length (interpolants inst_fun_history) = 2"
    by (simp_all add: inst_fun_history_def)
  have j: "\<not> repeated_t inst_spline_history" "hd (ys inst_spline_history) = [0]"
    by (simp_all add: inst_spline_history_def)
  have n: "[Function (\<lambda>t. [t]), DenseOutput (\<lambda>t. [10 * t])] \<noteq> []"
    and m: "[SplineList [\<lambda>t. t], DenseOutput (\<lambda>t. [10 * t])] \<noteq> []"
    by simp_all
  show ?thesis
    using C10_segment_index_in_range[OF construct_fun_history i(1) n, of 7 "[7, - 3]"]
      C10_segment_index_in_range[OF construct_fun_history i(1) n, of "- 3" "[]"]
      C10_segment_index_in_range[OF construct_spline_history j(1) m, of 0 "[7, - 3]"]
    by (simp add: i j construct_fun_history construct_spline_history)
qed

theorem C10_index_out_of_range:
  "construct [0] [] [[1]] = Inr inst_no_segment
   \<and> \<not> repeated_t inst_no_segment
   \<and> select_segment inst_no_segment 5 = - 1
   \<and> call_single inst_no_segment 5 = Inl IndexError
   \<and> \<not> repeated_t (reorganize inst_fun_history 0)
   \<and> call_single (reorganize inst_fun_history 0) (3 / 2) = Inl IndexError"
  by (simp add: construct_no_segment reorganize_fun_history_single)
    (simp add: inst_no_segment_def inst_fun_history_def reorganize_def call_single_def
      discont_hit_def select_segment_def searchsorted_left_def bisect.simps py_index_def)

end
